theory Spec2Isabelle
  imports Complex_Main "HOL-Library.Sublist" "HOL-Library.Log_Nat"
begin

section \<open>Numbers\<close>

text \<open>
  A JavaScript \<^verbatim>\<open>number\<close> is a double: a finite one is the rational number it denotes
  (the sign of zero is not kept), and the results of arithmetic can be the two infinities.
  No operation below gives \<^verbatim>\<open>NaN\<close> for finite operands.
\<close>

datatype js_number = Finite rat | PosInfinity | NegInfinity

text \<open>
  The rounding of an exact result to a double, to the nearest and a tie to the even
  significand. \<open>floor_log2 x\<close> is the exponent \<open>e\<close> with \<open>2 ^ e \<le> x < 2 ^ (e + 1)\<close> of a
  positive \<open>x\<close>; a double has 53 significant bits, so the doubles near \<open>x\<close> are the
  multiples of \<open>2 ^ (e - 52)\<close>, and those of \<open>2 ^ (- 1074)\<close> in the subnormal range; a
  result that rounds to \<open>2 ^ 1024\<close> or more in magnitude is an infinity.
\<close>

definition floor_log2 :: "rat \<Rightarrow> int" where
  "floor_log2 x =
     (let (p, q) = quotient_of x;
          e0 = bitlen p - bitlen q
      in if 2 powi e0 \<le> x then e0 else e0 - 1)"

definition round_half_even :: "rat \<Rightarrow> int" where
  "round_half_even x =
     (let f = \<lfloor>x\<rfloor>; d = x - of_int f
      in if d < 1 / 2 then f else if d > 1 / 2 then f + 1 else if even f then f else f + 1)"

definition ulp_exponent :: "rat \<Rightarrow> int" where
  "ulp_exponent x = max (floor_log2 \<bar>x\<bar> - 52) (- 1074)"

definition double_limit :: rat where
  "double_limit = 2 ^ 1024"

definition to_double :: "rat \<Rightarrow> js_number" where
  "to_double x =
     (if x = 0 then Finite 0
      else let q = ulp_exponent x;
               y = of_int (round_half_even (x / 2 powi q)) * 2 powi q
           in if y \<ge> double_limit then PosInfinity
              else if y \<le> - double_limit then NegInfinity
              else Finite y)"

text \<open>The rational numbers that are doubles.\<close>

definition is_double :: "rat \<Rightarrow> bool" where
  "is_double y \<longleftrightarrow> (\<exists>m k. \<bar>m\<bar> < 2 ^ 53 \<and> - 1074 \<le> k \<and> k \<le> 971 \<and> y = of_int m * 2 powi k)"

text \<open>
  The operations \<^verbatim>\<open>a - b\<close>, \<^verbatim>\<open>x * 100\<close> and \<^verbatim>\<open>x / 100\<close> give the double nearest to
  the exact result. \<^verbatim>\<open>Math.round\<close> gives the nearest integer, and of two the one
  towards positive infinity; that integer is a double.
\<close>

definition number_minus :: "rat \<Rightarrow> rat \<Rightarrow> js_number" where
  "number_minus a b = to_double (a - b)"

definition times_100 :: "js_number \<Rightarrow> js_number" where
  "times_100 x = (case x of Finite g \<Rightarrow> to_double (g * 100)
                  | PosInfinity \<Rightarrow> PosInfinity | NegInfinity \<Rightarrow> NegInfinity)"

definition Math_round :: "js_number \<Rightarrow> js_number" where
  "Math_round x = (case x of Finite t \<Rightarrow> Finite (of_int \<lfloor>t + 1 / 2\<rfloor>)
                   | PosInfinity \<Rightarrow> PosInfinity | NegInfinity \<Rightarrow> NegInfinity)"

definition divided_by_100 :: "js_number \<Rightarrow> js_number" where
  "divided_by_100 x = (case x of Finite r \<Rightarrow> to_double (r / 100)
                       | PosInfinity \<Rightarrow> PosInfinity | NegInfinity \<Rightarrow> NegInfinity)"

section \<open>Data model (lib/revive-enrichment.ts)\<close>

text \<open>
  The interfaces \<^verbatim>\<open>ReviveData\<close> and \<^verbatim>\<open>EnrichedRevive\<close>. A JavaScript \<^verbatim>\<open>number\<close> that
  carries an identifier or a timestamp in seconds is an \<^typ>\<open>int\<close>; one that carries a
  measurement (skill, success chance) is the \<^typ>\<open>rat\<close> that the double denotes.
  Comparisons of doubles are exact; the arithmetic that computes the gain rounds as the
  operations of the section above do, and its result is a \<^typ>\<open>js_number\<close>. An optional field is an
  \<^typ>\<open>'a option\<close>. The nested objects have fields of the same name (\<^verbatim>\<open>id\<close>,
  \<^verbatim>\<open>name\<close>, \<^verbatim>\<open>faction\<close>); each is prefixed with the name of its object.
\<close>

record Faction =
  faction_id :: int
  faction_name :: string

record Reviver =
  reviver_id :: int
  reviver_name :: string
  reviver_faction :: "Faction option"
  skill :: "rat option"

record Target =
  target_id :: int
  target_name :: string
  target_faction :: "Faction option"
  hospital_reason :: "string option"

record ReviveData =
  revive_id :: int
  reviver :: Reviver
  target :: Target
  result :: string
  success_chance :: rat
  timestamp :: int

datatype category = PvP | OD | Crime | RR | SelfHosp | Casino

datatype likelihood = Low | Medium | High | VeryHigh

record EnrichedRevive = ReviveData +
  Success :: bool
  Category :: category
  Chance :: rat
  Likelihood :: likelihood
  Gain :: "js_number option"
  HospitalizedBy :: string

section \<open>Strings\<close>

text \<open>
  \<^verbatim>\<open>String.prototype.includes\<close>: the pattern occurs at some position of the string.
\<close>

fun str_includes :: "string \<Rightarrow> string \<Rightarrow> bool" where
  "str_includes [] p = (p = [])"
| "str_includes (c # cs) p = (prefix p (c # cs) \<or> str_includes cs p)"

section \<open>Per-record classification\<close>

definition getCategory :: "string \<Rightarrow> category" where
  "getCategory reason =
     (if str_includes reason ''Shot themselves in the foot'' then RR
      else if str_includes reason ''Severe emesis following Ipecac Syrup ingestion'' then SelfHosp
      else if str_includes reason ''Punched in the face by Leslie''
            \<or> str_includes reason ''face punch''
            \<or> str_includes reason ''kick to the throat''
            \<or> str_includes reason ''choke hold'' then Casino
      else if list_ex (\<lambda>p. str_includes reason p) [''Lost to'', ''Mugged by'', ''Hospitalized by''] then PvP
      else if list_ex (\<lambda>p. str_includes reason p) [''Overdosed on'', ''Collapsed after''] then OD
      else Crime)"

definition getLikelihood :: "rat \<Rightarrow> likelihood" where
  "getLikelihood chance =
     (if chance \<le> 30 then Low
      else if chance \<le> 60 then Medium
      else if chance \<le> 80 then High
      else VeryHigh)"

text \<open>
  The classification as an ordered rule table: each rule is a list of patterns and the
  category of a reason that contains one of them; the first rule that matches decides,
  and a reason that matches no rule is a crime.
\<close>

definition category_rules :: "(string list \<times> category) list" where
  "category_rules =
     [([''Shot themselves in the foot''], RR),
      ([''Severe emesis following Ipecac Syrup ingestion''], SelfHosp),
      ([''Punched in the face by Leslie'', ''face punch'', ''kick to the throat'', ''choke hold''], Casino),
      ([''Lost to'', ''Mugged by'', ''Hospitalized by''], PvP),
      ([''Overdosed on'', ''Collapsed after''], OD)]"

fun first_match :: "(string list \<times> category) list \<Rightarrow> string \<Rightarrow> category" where
  "first_match [] reason = Crime"
| "first_match ((ps, c) # rules) reason =
     (if list_ex (\<lambda>p. str_includes reason p) ps then c else first_match rules reason)"

definition matches_rule :: "category \<Rightarrow> string \<Rightarrow> bool" where
  "matches_rule c reason =
     list_ex (\<lambda>(ps, c'). c' = c \<and> list_ex (\<lambda>p. str_includes reason p) ps) category_rules"

section \<open>Sorting with a comparator\<close>

text \<open>
  \<^verbatim>\<open>Array.prototype.sort(compare)\<close> is a stable sort: \<open>a\<close> is placed before \<open>b\<close> when
  \<open>compare a b < 0\<close>, and elements that compare equal keep their order. For a comparator
  that is a consistent ordering the result is the one stable insertion sort gives.
\<close>

fun insort_cmp :: "('a \<Rightarrow> 'a \<Rightarrow> rat) \<Rightarrow> 'a \<Rightarrow> 'a list \<Rightarrow> 'a list" where
  "insort_cmp cmp x [] = [x]"
| "insort_cmp cmp x (y # ys) =
     (if cmp x y \<le> 0 then x # y # ys else y # insort_cmp cmp x ys)"

definition sort_cmp :: "('a \<Rightarrow> 'a \<Rightarrow> rat) \<Rightarrow> 'a list \<Rightarrow> 'a list" where
  "sort_cmp cmp xs = foldr (insort_cmp cmp) xs []"

section \<open>enrichRevives\<close>

text \<open>\<^verbatim>\<open>Math.round(gain * 100) / 100\<close>.\<close>

definition round2 :: "js_number \<Rightarrow> js_number" where
  "round2 gain = divided_by_100 (Math_round (times_100 gain))"

text \<open>\<^verbatim>\<open>r.reviver.skill || 0\<close>: a missing skill counts as 0.\<close>

definition skill_or_0 :: "'a ReviveData_scheme \<Rightarrow> rat" where
  "skill_or_0 r = (case skill (reviver r) of None \<Rightarrow> 0 | Some s \<Rightarrow> s)"

text \<open>
  The first pass: the object literal that spreads the raw record and adds the derived
  fields. \<^verbatim>\<open>revive.success_chance || 0\<close> is the chance itself for every number.
\<close>

definition enrich_basic :: "ReviveData \<Rightarrow> EnrichedRevive" where
  "enrich_basic revive =
     (let hospitalizedBy = (case hospital_reason (target revive) of None \<Rightarrow> [] | Some s \<Rightarrow> s);
          chance = success_chance revive
      in \<lparr>revive_id = revive_id revive,
          reviver = reviver revive,
          target = target revive,
          result = result revive,
          success_chance = success_chance revive,
          timestamp = timestamp revive,
          Success = (result revive = ''success''),
          Category = getCategory hospitalizedBy,
          Chance = chance,
          Likelihood = getLikelihood chance,
          Gain = None,
          HospitalizedBy = hospitalizedBy\<rparr>)"

text \<open>
  The second pass. \<open>mySuccessfulRevives\<close> pairs every enriched record with its index,
  keeps the successful revives of other players by the user, and sorts them by timestamp.
\<close>

definition mySuccessfulRevives :: "EnrichedRevive list \<Rightarrow> int \<Rightarrow> (EnrichedRevive \<times> nat) list" where
  "mySuccessfulRevives enriched userReviveId =
     sort_cmp (\<lambda>a b. of_int (timestamp (fst a)) - of_int (timestamp (fst b)))
       (filter (\<lambda>(revive, index).
            reviver_id (reviver revive) = userReviveId
            \<and> target_id (target revive) \<noteq> userReviveId
            \<and> result revive = ''success'')
          (zip enriched [0..<length enriched]))"

text \<open>One iteration of the loop over \<open>i\<close>: the gain of the \<open>i\<close>-th revive of the sorted list.\<close>

definition gain_step ::
  "(EnrichedRevive \<times> nat) list \<Rightarrow> nat \<Rightarrow> EnrichedRevive list \<Rightarrow> EnrichedRevive list" where
  "gain_step ms i enriched =
     (let current = fst (ms ! i);
          next = fst (ms ! (i + 1));
          currentSkill = skill_or_0 current;
          nextSkill = skill_or_0 next;
          index = snd (ms ! i)
      in if nextSkill \<ge> 100
         then enriched[index := (enriched ! index)\<lparr>Gain := Some (Finite 0)\<rparr>]
         else (let gain = number_minus currentSkill nextSkill
               in enriched[index := (enriched ! index)\<lparr>Gain := Some (round2 gain)\<rparr>]))"

definition enrichRevives :: "ReviveData list \<Rightarrow> int \<Rightarrow> EnrichedRevive list" where
  "enrichRevives revives userReviveId =
     (if revives = [] then []
      else let enriched = map enrich_basic revives;
               ms = mySuccessfulRevives enriched userReviveId
           in fold (gain_step ms) [0..<length ms - 1] enriched)"

text \<open>
  The skill gain as the specification words it: the records of the reference actor's
  successful revives of others, with their positions in the input, in ascending order of
  timestamp (records of equal timestamp in input order); the gain of a record of that
  sequence with respect to the next one.
\<close>

definition in_gain_subsequence :: "int \<Rightarrow> ReviveData \<Rightarrow> bool" where
  "in_gain_subsequence referenceActorId r \<longleftrightarrow>
     reviver_id (reviver r) = referenceActorId
     \<and> target_id (target r) \<noteq> referenceActorId
     \<and> result r = ''success''"

definition gain_subsequence :: "ReviveData list \<Rightarrow> int \<Rightarrow> (nat \<times> ReviveData) list" where
  "gain_subsequence rs referenceActorId =
     sort_key (\<lambda>(i, r). timestamp r)
       (filter (\<lambda>(i, r). in_gain_subsequence referenceActorId r) (zip [0..<length rs] rs))"

definition spec_gain :: "ReviveData \<Rightarrow> ReviveData \<Rightarrow> js_number" where
  "spec_gain current next =
     (if skill_or_0 next \<ge> 100 then Finite 0
      else round2 (number_minus (skill_or_0 current) (skill_or_0 next)))"

text \<open>The value the \<open>i\<close>-th iteration of the loop stores.\<close>

definition gain_at :: "(EnrichedRevive \<times> nat) list \<Rightarrow> nat \<Rightarrow> js_number" where
  "gain_at ms i = (if skill_or_0 (fst (ms ! (i + 1))) \<ge> 100 then Finite 0
     else round2 (number_minus (skill_or_0 (fst (ms ! i))) (skill_or_0 (fst (ms ! (i + 1))))))"

section \<open>enrichRevives on a store of objects\<close>

text \<open>
  The same function with the objects it reads and writes made explicit. A store is the
  list of the objects that exist and a reference is a position in it; an array is a list
  of references. The objects are the raw records and the objects the function creates. The
  nested objects \<^verbatim>\<open>reviver\<close> and \<^verbatim>\<open>target\<close> are shared by the spread and never
  assigned to; they stay values.
\<close>

datatype js_object = RawObject ReviveData | EnrichedObject EnrichedRevive

definition raw_fields :: "js_object \<Rightarrow> ReviveData" where
  "raw_fields obj = (case obj of RawObject r \<Rightarrow> r | EnrichedObject e \<Rightarrow> ReviveData.truncate e)"

text \<open>
  \<^verbatim>\<open>obj.Gain = v\<close>. On an object without derived fields the assignment would add the
  property; the model shows the change as an enriched object.
\<close>

definition assign_Gain :: "js_number option \<Rightarrow> js_object \<Rightarrow> js_object" where
  "assign_Gain v obj =
     (case obj of
        EnrichedObject e \<Rightarrow> EnrichedObject (e\<lparr>Gain := v\<rparr>)
      | RawObject r \<Rightarrow> EnrichedObject ((enrich_basic r)\<lparr>Gain := v\<rparr>))"

text \<open>\<^verbatim>\<open>revives.map(...)\<close>: every call of the function creates an object.\<close>

fun map_enrich :: "nat list \<Rightarrow> js_object list \<Rightarrow> nat list \<times> js_object list" where
  "map_enrich [] store = ([], store)"
| "map_enrich (revive # rest) store =
     (let created = EnrichedObject (enrich_basic (raw_fields (store ! revive)));
          (refs, store1) = map_enrich rest (store @ [created])
      in (length store # refs, store1))"

definition mySuccessfulRevives_refs :: "js_object list \<Rightarrow> nat list \<Rightarrow> int \<Rightarrow> (nat \<times> nat) list" where
  "mySuccessfulRevives_refs store enriched userReviveId =
     sort_cmp (\<lambda>a b. of_int (timestamp (raw_fields (store ! fst a)))
                     - of_int (timestamp (raw_fields (store ! fst b))))
       (filter (\<lambda>(revive, index).
            reviver_id (reviver (raw_fields (store ! revive))) = userReviveId
            \<and> target_id (target (raw_fields (store ! revive))) \<noteq> userReviveId
            \<and> result (raw_fields (store ! revive)) = ''success'')
          (zip enriched [0..<length enriched]))"

definition gain_step_refs ::
  "(nat \<times> nat) list \<Rightarrow> nat list \<Rightarrow> nat \<Rightarrow> js_object list \<Rightarrow> js_object list" where
  "gain_step_refs ms enriched i store =
     (let current = raw_fields (store ! fst (ms ! i));
          next = raw_fields (store ! fst (ms ! (i + 1)));
          currentSkill = skill_or_0 current;
          nextSkill = skill_or_0 next;
          written = enriched ! snd (ms ! i)
      in if nextSkill \<ge> 100
         then store[written := assign_Gain (Some (Finite 0)) (store ! written)]
         else (let gain = number_minus currentSkill nextSkill
               in store[written := assign_Gain (Some (round2 gain)) (store ! written)]))"

definition enrichRevives_store :: "nat list \<Rightarrow> int \<Rightarrow> js_object list \<Rightarrow> nat list \<times> js_object list" where
  "enrichRevives_store revives userReviveId store =
     (if revives = [] then ([], store)
      else let (enriched, store1) = map_enrich revives store;
               ms = mySuccessfulRevives_refs store1 enriched userReviveId
           in (enriched, fold (gain_step_refs ms enriched) [0..<length ms - 1] store1))"

section \<open>The record store (lib/indexeddb.ts)\<close>

text \<open>
  The IndexedDB database \<^verbatim>\<open>TornRevivesDB\<close> as a value: its version (0 before it is first
  opened) and its object stores, each absent (\<open>None\<close>) or present with its content. The
  settings store has out-of-line keys; the module uses the keys \<^verbatim>\<open>apiKey\<close>,
  \<^verbatim>\<open>apiMode\<close> and \<^verbatim>\<open>excludedFilters\<close>. The two revive stores and the store
  \<^verbatim>\<open>revives\<close> of the earlier schema have the key path \<^verbatim>\<open>id\<close>: an object store keeps
  one record per key, in ascending order of key.
\<close>

datatype api_mode = UserMode | FactionMode

datatype db_error = VersionError | NotFoundError

record excluded_filters =
  players :: "string list"
  factions :: "string list"

record settings_content =
  apiKey :: "string option"
  apiMode :: "api_mode option"
  excludedFilters :: "excluded_filters option"

record database =
  version :: nat
  settings_store :: "settings_content option"
  user_revives_store :: "ReviveData list option"
  faction_revives_store :: "ReviveData list option"
  legacy_revives_store :: "ReviveData list option"
  payment_status_store :: "(string \<times> bool) list option"

definition DB_VERSION :: nat where
  "DB_VERSION = 3"

definition empty_settings :: settings_content where
  "empty_settings = \<lparr>apiKey = None, apiMode = None, excludedFilters = None\<rparr>"

text \<open>
  The handler of \<^verbatim>\<open>onupgradeneeded\<close>: it creates the stores that are missing and deletes
  the store \<^verbatim>\<open>revives\<close> when there is one.
\<close>

definition onupgradeneeded :: "database \<Rightarrow> database" where
  "onupgradeneeded db =
     (let db1 = (if settings_store db = None
                 then db\<lparr>settings_store := Some empty_settings\<rparr> else db);
          db2 = (if user_revives_store db1 = None
                 then db1\<lparr>user_revives_store := Some []\<rparr> else db1);
          db3 = (if faction_revives_store db2 = None
                 then db2\<lparr>faction_revives_store := Some []\<rparr> else db2);
          db4 = (if legacy_revives_store db3 \<noteq> None
                 then db3\<lparr>legacy_revives_store := None\<rparr> else db3);
          db5 = (if payment_status_store db4 = None
                 then db4\<lparr>payment_status_store := Some []\<rparr> else db4)
      in db5)"

text \<open>
  \<^verbatim>\<open>indexedDB.open(DB_NAME, DB_VERSION)\<close>: a stored version above the requested one is
  an error, a stored version below it runs the upgrade, and the open database has the
  requested version. The module caches the open database in \<^verbatim>\<open>dbInstance\<close>; opening
  an open database again changes nothing, so the cache is not part of the model.
\<close>

definition initDB :: "database \<Rightarrow> db_error + database" where
  "initDB db =
     (if version db > DB_VERSION then Inl VersionError
      else if version db < DB_VERSION then Inr ((onupgradeneeded db)\<lparr>version := DB_VERSION\<rparr>)
      else Inr db)"

text \<open>\<^verbatim>\<open>store.put(revive)\<close> on a store with key path \<^verbatim>\<open>id\<close>: insert, or replace the record of the same key.\<close>

fun store_put :: "ReviveData \<Rightarrow> ReviveData list \<Rightarrow> ReviveData list" where
  "store_put r [] = [r]"
| "store_put r (x # xs) =
     (if revive_id r < revive_id x then r # x # xs
      else if revive_id r = revive_id x then r # xs
      else x # store_put r xs)"

definition revives_store :: "api_mode \<Rightarrow> database \<Rightarrow> ReviveData list option" where
  "revives_store mode db =
     (if mode = UserMode then user_revives_store db else faction_revives_store db)"

definition set_revives_store :: "api_mode \<Rightarrow> ReviveData list \<Rightarrow> database \<Rightarrow> database" where
  "set_revives_store mode content db =
     (if mode = UserMode then db\<lparr>user_revives_store := Some content\<rparr>
      else db\<lparr>faction_revives_store := Some content\<rparr>)"

text \<open>
  The operations open the database first. A transaction on a store that does not exist
  fails with \<^verbatim>\<open>NotFoundError\<close>. Each operation returns the database it leaves behind.
\<close>

definition saveRevives :: "ReviveData list \<Rightarrow> api_mode \<Rightarrow> database \<Rightarrow> db_error + database" where
  "saveRevives revs mode db =
     (case initDB db of
        Inl e \<Rightarrow> Inl e
      | Inr db1 \<Rightarrow>
          (case revives_store mode db1 of
             None \<Rightarrow> Inl NotFoundError
           | Some content \<Rightarrow> Inr (set_revives_store mode (fold store_put revs content) db1)))"

definition getAllRevives :: "api_mode \<Rightarrow> database \<Rightarrow> db_error + database \<times> ReviveData list" where
  "getAllRevives mode db =
     (case initDB db of
        Inl e \<Rightarrow> Inl e
      | Inr db1 \<Rightarrow>
          (case revives_store mode db1 of
             None \<Rightarrow> Inl NotFoundError
           | Some content \<Rightarrow> Inr (db1, content)))"

text \<open>
  The first record of the index \<^verbatim>\<open>timestamp\<close> in the direction \<^verbatim>\<open>next\<close> is a record
  of least timestamp.
\<close>

definition getOldestTimestamp :: "api_mode \<Rightarrow> database \<Rightarrow> db_error + database \<times> int option" where
  "getOldestTimestamp mode db =
     (case initDB db of
        Inl e \<Rightarrow> Inl e
      | Inr db1 \<Rightarrow>
          (case revives_store mode db1 of
             None \<Rightarrow> Inl NotFoundError
           | Some [] \<Rightarrow> Inr (db1, None)
           | Some (x # xs) \<Rightarrow> Inr (db1, Some (fold min (map timestamp xs) (timestamp x)))))"

text \<open>\<^verbatim>\<open>request.result || null\<close>: an empty key counts as no key.\<close>

definition getApiKey :: "database \<Rightarrow> db_error + database \<times> string option" where
  "getApiKey db =
     (case initDB db of
        Inl e \<Rightarrow> Inl e
      | Inr db1 \<Rightarrow>
          (case settings_store db1 of
             None \<Rightarrow> Inl NotFoundError
           | Some st \<Rightarrow> Inr (db1, (case apiKey st of None \<Rightarrow> None
                                     | Some k \<Rightarrow> if k = [] then None else Some k))))"

definition getApiMode :: "database \<Rightarrow> db_error + database \<times> api_mode" where
  "getApiMode db =
     (case initDB db of
        Inl e \<Rightarrow> Inl e
      | Inr db1 \<Rightarrow>
          (case settings_store db1 of
             None \<Rightarrow> Inl NotFoundError
           | Some st \<Rightarrow> Inr (db1, (case apiMode st of None \<Rightarrow> UserMode | Some m \<Rightarrow> m))))"

definition saveExcludedFilters :: "string list \<Rightarrow> string list \<Rightarrow> database \<Rightarrow> db_error + database" where
  "saveExcludedFilters excludedPlayers excludedFactions db =
     (case initDB db of
        Inl e \<Rightarrow> Inl e
      | Inr db1 \<Rightarrow>
          (case settings_store db1 of
             None \<Rightarrow> Inl NotFoundError
           | Some st \<Rightarrow>
               Inr (db1\<lparr>settings_store :=
                 Some (st\<lparr>excludedFilters :=
                   Some \<lparr>players = excludedPlayers, factions = excludedFactions\<rparr>\<rparr>)\<rparr>)))"


text \<open>
  The database of the earlier schema (version 2): the stores \<^verbatim>\<open>settings\<close>,
  \<^verbatim>\<open>revives\<close> and \<^verbatim>\<open>paymentStatus\<close>.
\<close>

definition legacy_database :: "ReviveData list \<Rightarrow> database" where
  "legacy_database content =
     \<lparr>version = 2,
      settings_store = Some empty_settings,
      user_revives_store = None,
      faction_revives_store = None,
      legacy_revives_store = Some content,
      payment_status_store = Some []\<rparr>"

text \<open>The database before it is first opened.\<close>

definition new_database :: database where
  "new_database =
     \<lparr>version = 0,
      settings_store = None,
      user_revives_store = None,
      faction_revives_store = None,
      legacy_revives_store = None,
      payment_status_store = None\<rparr>"

text \<open>A sequence of merges: pages saved one after the other, each into the store of its mode.\<close>

fun merge_pages :: "(ReviveData list \<times> api_mode) list \<Rightarrow> database \<Rightarrow> db_error + database" where
  "merge_pages [] db = Inr db"
| "merge_pages ((page, mode) # rest) db =
     (case saveRevives page mode db of
        Inl e \<Rightarrow> Inl e
      | Inr db1 \<Rightarrow> merge_pages rest db1)"

text \<open>The invariant of a revive store: strictly ascending keys.\<close>

definition store_ok :: "ReviveData list \<Rightarrow> bool" where
  "store_ok content \<longleftrightarrow> sorted_wrt (<) (map revive_id content)"

definition stores_ok :: "database \<Rightarrow> bool" where
  "stores_ok db \<longleftrightarrow>
     (case user_revives_store db of None \<Rightarrow> True | Some c \<Rightarrow> store_ok c)
     \<and> (case faction_revives_store db of None \<Rightarrow> True | Some c \<Rightarrow> store_ok c)"

text \<open>What a later \<open>getAllRevives\<close> reads, and the record a store holds for an id.\<close>

definition cached_revives :: "api_mode \<Rightarrow> database \<Rightarrow> ReviveData list" where
  "cached_revives mode db = (case getAllRevives mode db of Inl e \<Rightarrow> [] | Inr (db1, rs) \<Rightarrow> rs)"

definition lookup_id :: "int \<Rightarrow> ReviveData list \<Rightarrow> ReviveData option" where
  "lookup_id i rs = find (\<lambda>r. revive_id r = i) rs"

text \<open>The pages of a sequence of merges that go to the store of a mode, in order.\<close>

definition pages_of :: "api_mode \<Rightarrow> (ReviveData list \<times> api_mode) list \<Rightarrow> ReviveData list" where
  "pages_of mode ops = concat (map fst (filter (\<lambda>(page, m). m = mode) ops))"

text \<open>A database that opens and has both revive stores once it is open.\<close>

definition db_ready :: "database \<Rightarrow> bool" where
  "db_ready db \<longleftrightarrow>
     version db < DB_VERSION
     \<or> version db = DB_VERSION \<and> user_revives_store db \<noteq> None \<and> faction_revives_store db \<noteq> None"

section \<open>The dashboard (components/revives-dashboard.tsx)\<close>

text \<open>
  The state of the component \<^verbatim>\<open>RevivesDashboard\<close> that \<^verbatim>\<open>fetchRevives\<close> reads and
  writes. \<open>loggedOut\<close> records a call of \<^verbatim>\<open>onLogout\<close> and \<open>toasts\<close> the titles of the
  notifications shown.
\<close>

record dashboard_state =
  revives :: "EnrichedRevive list"
  isLoading :: bool
  isFetching :: bool
  isLoadingMore :: bool
  error :: string
  userReviveId :: int
  hasMoreData :: bool
  mode :: api_mode
  factionId :: int
  loggedOut :: bool
  toasts :: "string list"

text \<open>
  The external data source. A request is the mode whose endpoint is called, the optional
  \<^verbatim>\<open>to\<close> parameter and the key sent; \<^verbatim>\<open>fetch\<close> either rejects, or resolves to a
  response with its \<^verbatim>\<open>ok\<close> flag and a body, whose \<^verbatim>\<open>json()\<close> rejects or gives an
  object with an optional field \<^verbatim>\<open>revives\<close>.
\<close>

record request =
  req_mode :: api_mode
  req_to :: "int option"
  req_apiKey :: string

datatype response_body = BadJson | Json "ReviveData list option"

datatype fetch_outcome = FetchRejected | Response bool response_body

definition fetch_failed :: "fetch_outcome \<Rightarrow> bool" where
  "fetch_failed outcome \<longleftrightarrow>
     (case outcome of FetchRejected \<Rightarrow> True | Response ok body \<Rightarrow> \<not> ok)"

text \<open>The \<^verbatim>\<open>catch\<close> and the \<^verbatim>\<open>finally\<close> block of \<^verbatim>\<open>fetchRevives\<close>.\<close>

definition catch_block :: "dashboard_state \<Rightarrow> dashboard_state" where
  "catch_block st = st\<lparr>error := ''Failed to fetch revives. Please try again.''\<rparr>"

definition finally_block :: "dashboard_state \<Rightarrow> dashboard_state" where
  "finally_block st = st\<lparr>isLoading := False, isFetching := False, isLoadingMore := False\<rparr>"

text \<open>
  The part of the \<^verbatim>\<open>try\<close> block after the response is parsed. \<open>st0\<close> is the state the
  handler was created with: the closure reads \<^verbatim>\<open>userReviveId\<close> and \<^verbatim>\<open>factionId\<close>
  from it. An id counts as present when it is not 0.
\<close>

definition process_revives ::
  "bool \<Rightarrow> api_mode \<Rightarrow> ReviveData list \<Rightarrow> dashboard_state \<Rightarrow> dashboard_state \<Rightarrow> database
   \<Rightarrow> dashboard_state \<times> database" where
  "process_revives backfill currentMode fetchedRevives st0 st db =
     (let st1 = (if backfill \<and> fetchedRevives = [] then st\<lparr>hasMoreData := False\<rparr> else st)
      in case fetchedRevives of
           first # others \<Rightarrow>
             (let firstId = reviver_id (reviver first);
                  firstFaction = (case reviver_faction (reviver first) of
                                    None \<Rightarrow> 0 | Some f \<Rightarrow> faction_id f);
                  st2 = (if userReviveId st0 = 0 \<and> firstId \<noteq> 0
                         then st1\<lparr>userReviveId := firstId\<rparr> else st1);
                  st3 = (if factionId st0 = 0 \<and> firstFaction \<noteq> 0
                         then st2\<lparr>factionId := firstFaction\<rparr> else st2)
              in case saveRevives fetchedRevives currentMode db of
                   Inl e \<Rightarrow> (catch_block st3, db)
                 | Inr db1 \<Rightarrow>
                     (case getAllRevives currentMode db1 of
                        Inl e \<Rightarrow> (catch_block st3, db1)
                      | Inr (db2, allRevives) \<Rightarrow>
                          (let enriched = enrichRevives allRevives
                                 (if firstId \<noteq> 0 then firstId else userReviveId st0)
                           in (st3\<lparr>revives := enriched,
                                   toasts := toasts st3 @
                                     [if backfill then ''Loaded more revives''
                                      else ''Revives refreshed'']\<rparr>, db2))))
         | [] \<Rightarrow>
             if backfill
             then (st1\<lparr>hasMoreData := False, toasts := toasts st1 @ [''No more data'']\<rparr>, db)
             else (st1, db))"

definition fetchRevives ::
  "(request \<Rightarrow> fetch_outcome) \<Rightarrow> bool \<Rightarrow> dashboard_state \<Rightarrow> database
   \<Rightarrow> dashboard_state \<times> database" where
  "fetchRevives fetch backfill st0 db0 =
     (let st = (if backfill then st0\<lparr>isLoadingMore := True\<rparr> else st0\<lparr>isFetching := True\<rparr>)
                 \<lparr>error := []\<rparr>;
          (st', db') =
            (case getApiKey db0 of
               Inl e \<Rightarrow> (catch_block st, db0)
             | Inr (db1, None) \<Rightarrow> (st\<lparr>loggedOut := True\<rparr>, db1)
             | Inr (db1, Some key) \<Rightarrow>
                 (case getApiMode db1 of
                    Inl e \<Rightarrow> (catch_block st, db1)
                  | Inr (db2, currentMode) \<Rightarrow>
                      (let st1 = st\<lparr>mode := currentMode\<rparr>
                       in case (if backfill then getOldestTimestamp currentMode db2
                                else Inr (db2, None)) of
                            Inl e \<Rightarrow> (catch_block st1, db2)
                          | Inr (db3, oldestTimestamp) \<Rightarrow>
                              (case fetch \<lparr>req_mode = currentMode,
                                           req_to = (case oldestTimestamp of
                                                       None \<Rightarrow> None
                                                     | Some t \<Rightarrow> if t = 0 then None else Some t),
                                           req_apiKey = key\<rparr> of
                                 FetchRejected \<Rightarrow> (catch_block st1, db3)
                               | Response ok body \<Rightarrow>
                                   if \<not> ok then (catch_block st1, db3)
                                   else (case body of
                                           BadJson \<Rightarrow> (catch_block st1, db3)
                                         | Json data_revives \<Rightarrow>
                                             process_revives backfill currentMode
                                               (case data_revives of None \<Rightarrow> [] | Some rs \<Rightarrow> rs)
                                               st0 st1 db3)))))
      in (finally_block st', db'))"

definition handleRefresh ::
  "(request \<Rightarrow> fetch_outcome) \<Rightarrow> dashboard_state \<Rightarrow> database \<Rightarrow> dashboard_state \<times> database" where
  "handleRefresh fetch st db = fetchRevives fetch False (st\<lparr>hasMoreData := True\<rparr>) db"

definition handleLoadMore ::
  "(request \<Rightarrow> fetch_outcome) \<Rightarrow> dashboard_state \<Rightarrow> database \<Rightarrow> dashboard_state \<times> database" where
  "handleLoadMore fetch st db = fetchRevives fetch True st db"

text \<open>What a later \<open>getOldestTimestamp\<close> reads.\<close>

definition known_oldest :: "api_mode \<Rightarrow> database \<Rightarrow> int option" where
  "known_oldest m db = (case getOldestTimestamp m db of Inl e \<Rightarrow> None | Inr (db1, t) \<Rightarrow> t)"

section \<open>The table (components/revives-table.tsx)\<close>

text \<open>
  \<^verbatim>\<open>String.prototype.trim\<close> and \<^verbatim>\<open>toLowerCase\<close>. A \<^typ>\<open>char\<close> is a code unit
  below 256. Of these, \<^verbatim>\<open>trim\<close> strips the white space and line terminators: tab, line
  feed, vertical tab, form feed, carriage return, space and the no-break space U+00A0;
  \<^verbatim>\<open>toLowerCase\<close> maps the letters A to Z and the letters U+00C0 to U+00DE other than
  the multiplication sign U+00D7 to the code unit 32 above them.
\<close>

definition is_whitespace :: "char \<Rightarrow> bool" where
  "is_whitespace c \<longleftrightarrow> (of_char c :: nat) \<in> {9, 10, 11, 12, 13, 32, 160}"

definition trim :: "string \<Rightarrow> string" where
  "trim s = rev (dropWhile is_whitespace (rev (dropWhile is_whitespace s)))"

definition toLowerCase :: "string \<Rightarrow> string" where
  "toLowerCase s =
     map (\<lambda>c. if 65 \<le> (of_char c :: nat) \<and> (of_char c :: nat) \<le> 90
                 \<or> 192 \<le> (of_char c :: nat) \<and> (of_char c :: nat) \<le> 222
                   \<and> (of_char c :: nat) \<noteq> 215
              then char_of (of_char c + 32 :: nat) else c) s"

text \<open>
  A \<^verbatim>\<open>Set<string>\<close> is the list of its elements in insertion order, without
  repetition.
\<close>

definition Set_add :: "string \<Rightarrow> string list \<Rightarrow> string list" where
  "Set_add x xs = (if x \<in> set xs then xs else xs @ [x])"

definition Set_delete :: "string \<Rightarrow> string list \<Rightarrow> string list" where
  "Set_delete x xs = filter (\<lambda>y. y \<noteq> x) xs"

definition new_Set :: "string list \<Rightarrow> string list" where
  "new_Set xs = fold Set_add xs []"

text \<open>
  \<^verbatim>\<open>Array.prototype.slice(start, end)\<close>: an index is truncated towards zero, a
  negative one counts from the end, and both are clamped to the array.
\<close>

definition slice_index :: "nat \<Rightarrow> rat \<Rightarrow> nat" where
  "slice_index len x =
     (let i = (if x < 0 then \<lceil>x\<rceil> else \<lfloor>x\<rfloor>)
      in if i < 0 then nat (max (int len + i) 0) else nat (min i (int len)))"

definition slice :: "'a list \<Rightarrow> rat \<Rightarrow> rat \<Rightarrow> 'a list" where
  "slice xs start end =
     take (slice_index (length xs) end - slice_index (length xs) start)
       (drop (slice_index (length xs) start) xs)"

datatype SortField = SortTimestamp | SortSkill | SortLikelihood

datatype SortDirection = Asc | Desc

text \<open>
  The state of the component \<^verbatim>\<open>RevivesTable\<close>. The category filter is \<open>None\<close> for
  \<^verbatim>\<open>"all"\<close> and the outcome filter is \<open>None\<close> for \<^verbatim>\<open>"all"\<close>, \<open>Some True\<close> for
  \<^verbatim>\<open>"success"\<close> and \<open>Some False\<close> for any other value. A date of the range is
  the number of seconds \<^verbatim>\<open>Math.floor(date.getTime() / 1000)\<close> of the selected day.
\<close>

record table_state =
  sortField :: SortField
  sortDirection :: SortDirection
  currentPage :: rat
  pageSize :: nat
  pageJumpInput :: string
  categoryFilter :: "category option"
  outcomeFilter :: "bool option"
  dateRange_from :: "int option"
  dateRange_to :: "int option"
  playerSearch :: string
  factionSearch :: string
  excludedPlayers :: "string list"
  excludedFactions :: "string list"

text \<open>The predicates of the two exclusion filters and of the two searches.\<close>

definition not_excluded_player :: "string list \<Rightarrow> EnrichedRevive \<Rightarrow> bool" where
  "not_excluded_player excluded r \<longleftrightarrow> target_name (target r) \<notin> set excluded"

definition not_excluded_faction :: "string list \<Rightarrow> EnrichedRevive \<Rightarrow> bool" where
  "not_excluded_faction excluded r \<longleftrightarrow>
     (case target_faction (target r) of
        None \<Rightarrow> True
      | Some f \<Rightarrow> faction_name f = [] \<or> faction_name f \<notin> set excluded)"

definition matches_player_search :: "string \<Rightarrow> EnrichedRevive \<Rightarrow> bool" where
  "matches_player_search searchLower r \<longleftrightarrow>
     str_includes (toLowerCase (target_name (target r))) searchLower"

definition matches_faction_search :: "string \<Rightarrow> EnrichedRevive \<Rightarrow> bool" where
  "matches_faction_search searchLower r \<longleftrightarrow>
     (case target_faction (target r) of
        None \<Rightarrow> False
      | Some f \<Rightarrow> str_includes (toLowerCase (faction_name f)) searchLower)"

definition compare_revives :: "SortField \<Rightarrow> SortDirection \<Rightarrow> EnrichedRevive \<Rightarrow> EnrichedRevive \<Rightarrow> rat" where
  "compare_revives field direction a b =
     (let comparison =
        (case field of
           SortTimestamp \<Rightarrow> of_int (timestamp a) - of_int (timestamp b)
         | SortSkill \<Rightarrow> skill_or_0 a - skill_or_0 b
         | SortLikelihood \<Rightarrow> Chance a - Chance b)
      in if direction = Asc then comparison else - comparison)"

definition filteredAndSortedRevives :: "table_state \<Rightarrow> EnrichedRevive list \<Rightarrow> EnrichedRevive list" where
  "filteredAndSortedRevives st revs =
     (let f1 = (case categoryFilter st of
                  None \<Rightarrow> revs
                | Some c \<Rightarrow> filter (\<lambda>r. Category r = c) revs);
          f2 = (case outcomeFilter st of
                  None \<Rightarrow> f1
                | Some isSuccess \<Rightarrow> filter (\<lambda>r. Success r = isSuccess) f1);
          f3 = (if trim (playerSearch st) \<noteq> []
                then filter (matches_player_search (toLowerCase (playerSearch st))) f2 else f2);
          f4 = (if trim (factionSearch st) \<noteq> []
                then filter (matches_faction_search (toLowerCase (factionSearch st))) f3 else f3);
          f5 = (if length (excludedPlayers st) > 0
                then filter (not_excluded_player (excludedPlayers st)) f4 else f4);
          f6 = (if length (excludedFactions st) > 0
                then filter (not_excluded_faction (excludedFactions st)) f5 else f5);
          f7 = (case dateRange_from st of
                  None \<Rightarrow> f6
                | Some fromTimestamp \<Rightarrow> filter (\<lambda>r. timestamp r \<ge> fromTimestamp) f6);
          f8 = (case dateRange_to st of
                  None \<Rightarrow> f7
                | Some toDay \<Rightarrow> filter (\<lambda>r. timestamp r \<le> toDay + 86399) f7)
      in sort_cmp (compare_revives (sortField st) (sortDirection st)) f8)"

text \<open>
  Pagination. \<^verbatim>\<open>Math.ceil(length / pageSize)\<close>; the page sizes the selector offers
  are 5, 10, 15 and 20. The page indicator shows \<^verbatim>\<open>totalPages || 1\<close>.
\<close>

definition allowed_page_sizes :: "nat list" where
  "allowed_page_sizes = [5, 10, 15, 20]"

definition totalPages :: "table_state \<Rightarrow> EnrichedRevive list \<Rightarrow> int" where
  "totalPages st revs =
     \<lceil>(of_nat (length (filteredAndSortedRevives st revs)) :: rat) / of_nat (pageSize st)\<rceil>"

definition shown_totalPages :: "table_state \<Rightarrow> EnrichedRevive list \<Rightarrow> int" where
  "shown_totalPages st revs = (if totalPages st revs = 0 then 1 else totalPages st revs)"

definition paginatedRevives :: "table_state \<Rightarrow> EnrichedRevive list \<Rightarrow> EnrichedRevive list" where
  "paginatedRevives st revs =
     (let startIndex = (currentPage st - 1) * of_nat (pageSize st);
          endIndex = startIndex + of_nat (pageSize st)
      in slice (filteredAndSortedRevives st revs) startIndex endIndex)"

text \<open>
  The handlers take the properties \<^verbatim>\<open>revives\<close> and \<^verbatim>\<open>isLoadingMore\<close> of the
  component, and return the new state and whether \<^verbatim>\<open>onLoadMore\<close> was called.
\<close>

definition handlePageChange ::
  "EnrichedRevive list \<Rightarrow> bool \<Rightarrow> rat \<Rightarrow> table_state \<Rightarrow> table_state \<times> bool" where
  "handlePageChange revs loadingMore newPage st =
     (st\<lparr>currentPage := newPage\<rparr>, newPage = of_int (totalPages st revs) \<and> \<not> loadingMore)"

text \<open>
  \<^verbatim>\<open>Number(pageJumpInput)\<close> is the parameter \<open>to_number\<close>; \<open>None\<close> is \<^verbatim>\<open>NaN\<close>, for
  which both comparisons are false.
\<close>

definition handlePageJump ::
  "(string \<Rightarrow> rat option) \<Rightarrow> EnrichedRevive list \<Rightarrow> bool \<Rightarrow> table_state \<Rightarrow> table_state \<times> bool" where
  "handlePageJump to_number revs loadingMore st =
     (case to_number (pageJumpInput st) of
        None \<Rightarrow> (st, False)
      | Some pageNum \<Rightarrow>
          if pageNum \<ge> 1 \<and> pageNum \<le> of_int (totalPages st revs)
          then (let (st1, more) = handlePageChange revs loadingMore pageNum st
                in (st1\<lparr>pageJumpInput := []\<rparr>, more))
          else (st, False))"

definition handlePageSizeChange :: "nat \<Rightarrow> table_state \<Rightarrow> table_state" where
  "handlePageSizeChange newSize st = st\<lparr>pageSize := newSize, currentPage := 1\<rparr>"



definition toggleExcludeFaction :: "string \<Rightarrow> table_state \<Rightarrow> database \<Rightarrow> table_state \<times> database" where
  "toggleExcludeFaction faction st db =
     (let newSet = (if faction \<in> set (excludedFactions st)
                    then Set_delete faction (excludedFactions st)
                    else Set_add faction (excludedFactions st))
      in (st\<lparr>excludedFactions := newSet, currentPage := 1\<rparr>,
          case saveExcludedFilters (excludedPlayers st) newSet db of
            Inl e \<Rightarrow> db
          | Inr db1 \<Rightarrow> db1))"







text \<open>The state of the component when it is created.\<close>

definition initial_table_state :: table_state where
  "initial_table_state =
     \<lparr>sortField = SortTimestamp, sortDirection = Desc, currentPage = 1, pageSize = 10,
      pageJumpInput = [], categoryFilter = None, outcomeFilter = None,
      dateRange_from = None, dateRange_to = None, playerSearch = [], factionSearch = [],
      excludedPlayers = [], excludedFactions = []\<rparr>"

text \<open>Sample records for the concrete instances below.\<close>

definition sample_revive :: "int \<Rightarrow> int \<Rightarrow> int \<Rightarrow> string \<Rightarrow> rat option \<Rightarrow> int \<Rightarrow> ReviveData" where
  "sample_revive i rv tg res sk ts =
     \<lparr>revive_id = i,
      reviver = \<lparr>reviver_id = rv, reviver_name = ''Medic'', reviver_faction = None, skill = sk\<rparr>,
      target = \<lparr>target_id = tg, target_name = ''Duke'', target_faction = None,
                hospital_reason = Some ''Mugged by someone''\<rparr>,
      result = res, success_chance = 50, timestamp = ts\<rparr>"

definition sample_revives :: "ReviveData list" where
  "sample_revives =
     [sample_revive 1 7 8 ''success'' (Some 20) 300,
      sample_revive 2 7 9 ''failure'' (Some 30) 250,
      sample_revive 3 7 8 ''success'' (Some 50) 100,
      sample_revive 4 7 9 ''success'' (Some 40) 200]"

definition overlap_page :: "ReviveData list" where
  "overlap_page =
     [sample_revive 4 7 9 ''success'' (Some 41) 200,
      sample_revive 5 7 8 ''failure'' None 50]"

definition sample_db :: database where
  "sample_db =
     (case saveRevives sample_revives UserMode new_database of Inl e \<Rightarrow> new_database | Inr db \<Rightarrow> db)"

definition merged_db :: database where
  "merged_db =
     (case saveRevives overlap_page UserMode sample_db of Inl e \<Rightarrow> new_database | Inr db \<Rightarrow> db)"

text \<open>The database an operation leaves behind: the one it found, opened.\<close>

definition opened :: "database \<Rightarrow> database \<Rightarrow> bool" where
  "opened db db1 \<longleftrightarrow> db1 = db \<or> initDB db = Inr db1"

text \<open>
  Sample states for the concrete instances below, and the state of the component when it is
  created (the \<^verbatim>\<open>useState\<close> defaults).
\<close>

definition sample_state :: dashboard_state where
  "sample_state =
     \<lparr>revives = enrichRevives sample_revives 7, isLoading = False, isFetching = False,
      isLoadingMore = False, error = [], userReviveId = 7, hasMoreData = False,
      mode = UserMode, factionId = 0, loggedOut = False, toasts = []\<rparr>"

definition initial_dashboard_state :: dashboard_state where
  "initial_dashboard_state =
     \<lparr>revives = [], isLoading = True, isFetching = False, isLoadingMore = False, error = [],
      userReviveId = 0, hasMoreData = True, mode = UserMode, factionId = 0, loggedOut = False,
      toasts = []\<rparr>"

definition keyed_db :: database where
  "keyed_db = sample_db\<lparr>settings_store := Some (empty_settings\<lparr>apiKey := Some ''key''\<rparr>)\<rparr>"




text \<open>Sample records and states of the table for the concrete instances below.\<close>

definition sample_enriched :: "Faction option \<Rightarrow> EnrichedRevive" where
  "sample_enriched f =
     enrich_basic ((sample_revive 1 7 8 ''success'' (Some 20) 300)
       \<lparr>target := \<lparr>target_id = 8, target_name = ''Duke'', target_faction = f,
                    hospital_reason = Some ''Mugged by someone''\<rparr>\<rparr>)"

section \<open>Theorems\<close>

subsection \<open>Numbers\<close>

lemma floor_log2_bounds:
  assumes "0 < x"
  shows "2 powi (floor_log2 x) \<le> x" "x < 2 powi (floor_log2 x + 1)"
proof -
  obtain p q where pq: "quotient_of x = (p, q)" by (cases "quotient_of x")
  then have q: "0 < q" and x: "x = of_int p / of_int q"
    by (simp_all add: quotient_of_denom_pos quotient_of_div)
  with assms have p: "0 < p" by (simp add: zero_less_divide_iff)
  define a where "a = bitlen p"
  define b where "b = bitlen q"
  have a: "1 \<le> a" "2 ^ nat (a - 1) \<le> p" "p < 2 ^ nat a"
    using bitlen_bounds [OF p] p by (auto simp: a_def bitlen_alt_def)
  have b: "1 \<le> b" "2 ^ nat (b - 1) \<le> q" "q < 2 ^ nat b"
    using bitlen_bounds [OF q] q by (auto simp: b_def bitlen_alt_def)
  have "(of_int (2 ^ nat (a - 1)) :: rat) \<le> of_int p" "(of_int p :: rat) < of_int (2 ^ nat a)"
    using a(2,3) by (simp_all only: of_int_le_iff of_int_less_iff)
  then have pa: "(2::rat) powi (a - 1) \<le> of_int p" "of_int p < (2::rat) powi a"
    using a(1) by (simp_all add: power_int_def)
  have "(of_int (2 ^ nat (b - 1)) :: rat) \<le> of_int q" "(of_int q :: rat) < of_int (2 ^ nat b)"
    using b(2,3) by (simp_all only: of_int_le_iff of_int_less_iff)
  then have qb: "(2::rat) powi (b - 1) \<le> of_int q" "of_int q < (2::rat) powi b"
    using b(1) by (simp_all add: power_int_def)
  have qpos: "(0::rat) < of_int q" using q by simp
  have up: "x < 2 powi (a - b + 1)"
  proof -
    have "x * of_int q = of_int p" using x qpos by simp
    also have "\<dots> < (2::rat) powi a" by (rule pa)
    also have "\<dots> = (2::rat) powi (a - b + 1) * 2 powi (b - 1)"
      by (simp flip: power_int_add)
    also have "\<dots> \<le> 2 powi (a - b + 1) * of_int q"
      using qb(1) by (intro mult_left_mono) simp_all
    finally show ?thesis using qpos by simp
  qed
  have lo: "2 powi (a - b - 1) \<le> x"
  proof -
    have "(2::rat) powi (a - b - 1) * of_int q \<le> 2 powi (a - b - 1) * 2 powi b"
      using qb(2) by (intro mult_left_mono) simp_all
    also have "\<dots> = 2 powi (a - 1)" by (simp flip: power_int_add)
    also have "\<dots> \<le> of_int p" by (rule pa)
    also have "\<dots> = x * of_int q" using x qpos by simp
    finally show ?thesis using qpos by simp
  qed
  have fl: "floor_log2 x = (if 2 powi (a - b) \<le> x then a - b else a - b - 1)"
    by (simp add: floor_log2_def pq a_def b_def)
  show "2 powi (floor_log2 x) \<le> x" using lo by (simp add: fl)
  show "x < 2 powi (floor_log2 x + 1)" using up by (auto simp add: fl not_le)
qed

lemma powi_less_imp_less:
  assumes "(2::rat) powi a < 2 powi b"
  shows "a < b"
proof (rule ccontr)
  assume "\<not> a < b"
  then have "(2::rat) powi b \<le> 2 powi a" by (intro power_int_increasing) simp_all
  with assms show False by simp
qed

lemma floor_log2_unique:
  assumes "0 < x" "2 powi e \<le> x" "x < 2 powi (e + 1)"
  shows "floor_log2 x = e"
proof -
  have "(2::rat) powi (floor_log2 x) < 2 powi (e + 1)"
    using floor_log2_bounds(1) [OF assms(1)] assms(3) by simp
  then have 1: "floor_log2 x < e + 1" by (rule powi_less_imp_less)
  have "(2::rat) powi e < 2 powi (floor_log2 x + 1)"
    using floor_log2_bounds(2) [OF assms(1)] assms(2) by simp
  then have 2: "e < floor_log2 x + 1" by (rule powi_less_imp_less)
  from 1 2 show ?thesis by simp
qed

lemma round_half_even_near: "\<bar>of_int (round_half_even x) - x\<bar> \<le> 1 / 2"
  unfolding round_half_even_def Let_def by (auto simp: abs_if) linarith+

lemma round_half_even_tie:
  "\<bar>of_int (round_half_even x) - x\<bar> = 1 / 2 \<Longrightarrow> even (round_half_even x)"
  unfolding round_half_even_def Let_def by (auto simp: abs_if split: if_splits) linarith+

lemma round_half_even_nearest: "\<bar>of_int (round_half_even x) - x\<bar> \<le> \<bar>of_int j - x\<bar>"
proof (cases "j = round_half_even x")
  case False
  then have "1 \<le> \<bar>j - round_half_even x\<bar>" by simp
  then have "(1::rat) \<le> \<bar>of_int j - of_int (round_half_even x)\<bar>"
    by (metis of_int_1 of_int_abs of_int_diff of_int_le_iff)
  with round_half_even_near [of x] show ?thesis by linarith
qed simp

lemma round_half_even_eqI:
  assumes "\<bar>of_int n - x\<bar> \<le> 1 / 2" "\<bar>of_int n - x\<bar> = 1 / 2 \<longrightarrow> even n"
  shows "round_half_even x = n"
proof (rule ccontr)
  assume ne: "round_half_even x \<noteq> n"
  define r where "r = round_half_even x"
  have r: "\<bar>of_int r - x\<bar> \<le> 1 / 2" "\<bar>of_int r - x\<bar> = 1 / 2 \<longrightarrow> even r"
    using round_half_even_near [of x] round_half_even_tie [of x] by (auto simp: r_def)
  have "\<bar>(of_int r :: rat) - of_int n\<bar> \<le> 1" using r(1) assms(1) by linarith
  then have "\<bar>r - n\<bar> \<le> 1" by (metis of_int_1 of_int_abs of_int_diff of_int_le_iff)
  with ne have d: "r = n + 1 \<or> r = n - 1" by (auto simp: r_def)
  then have "\<bar>of_int r - x\<bar> = 1 / 2 \<and> \<bar>of_int n - x\<bar> = 1 / 2"
    using r(1) assms(1) by (auto simp: abs_if split: if_splits)
  with r(2) assms(2) d show False by auto
qed

lemma round_half_even_of_int [simp]: "round_half_even (of_int n) = n"
  by (rule round_half_even_eqI) simp_all

lemma powi_pos [simp]: "(0::rat) < 2 powi k"
  by simp

lemma powi_split: "(2::rat) powi (a + b) = 2 powi a * 2 powi b"
  by (simp add: power_int_add)

lemma powi_diff: "(2::rat) powi (a - b) = 2 powi a / 2 powi b"
  by (simp add: power_int_diff)

lemma powi_mono: "a \<le> b \<Longrightarrow> (2::rat) powi a \<le> 2 powi b"
  by (intro power_int_increasing) simp_all

lemma powi_strict_mono: "a < b \<Longrightarrow> (2::rat) powi a < 2 powi b"
  by (intro power_int_strict_increasing) simp_all

lemma powi_nonneg_int: "0 \<le> k \<Longrightarrow> (2::rat) powi k = of_int (2 ^ nat k)"
  by (simp add: power_int_def)

text \<open>The scaled value has less than 54 bits, and at least 53 in the normal range.\<close>

lemma scaled_bounds:
  assumes "x \<noteq> 0"
  shows "\<bar>x / 2 powi ulp_exponent x\<bar> < 2 ^ 53"
    and "- 1074 \<le> floor_log2 \<bar>x\<bar> - 52 \<Longrightarrow> 2 ^ 52 \<le> \<bar>x / 2 powi ulp_exponent x\<bar>"
proof -
  define e where "e = floor_log2 \<bar>x\<bar>"
  define q where "q = ulp_exponent x"
  have q: "q = max (e - 52) (- 1074)" by (simp add: q_def e_def ulp_exponent_def)
  have pos: "0 < \<bar>x\<bar>" using assms by simp
  have b: "2 powi e \<le> \<bar>x\<bar>" "\<bar>x\<bar> < 2 powi (e + 1)"
    using floor_log2_bounds [OF pos] by (simp_all add: e_def)
  have "\<bar>x\<bar> < 2 powi (e + 1)" by (rule b)
  also have "\<dots> \<le> 2 powi (q + 53)" by (rule powi_mono) (simp add: q)
  also have "\<dots> = 2 ^ 53 * 2 powi q" by (simp add: powi_split)
  finally have "\<bar>x\<bar> / 2 powi q < 2 ^ 53" by (simp add: pos_divide_less_eq)
  then show "\<bar>x / 2 powi ulp_exponent x\<bar> < 2 ^ 53" by (simp add: q_def)
  assume "- 1074 \<le> floor_log2 \<bar>x\<bar> - 52"
  then have q2: "q = e - 52" by (simp add: q e_def)
  have "2 ^ 52 * 2 powi q = (2::rat) powi (52 + q)" by (simp add: powi_split)
  also have "\<dots> = 2 powi e" by (simp add: q2)
  also have "\<dots> \<le> \<bar>x\<bar>" by (rule b)
  finally have "2 ^ 52 \<le> \<bar>x\<bar> / 2 powi q" by (simp add: pos_le_divide_eq)
  then show "2 ^ 52 \<le> \<bar>x / 2 powi ulp_exponent x\<bar>" by (simp add: q_def)
qed

lemma round_half_even_abs_le:
  assumes "\<bar>t\<bar> \<le> of_int N"
  shows "\<bar>round_half_even t\<bar> \<le> N"
proof -
  have "\<bar>of_int (round_half_even t) - t\<bar> \<le> \<bar>of_int N - t\<bar>"
       "\<bar>of_int (round_half_even t) - t\<bar> \<le> \<bar>of_int (- N) - t\<bar>"
    by (rule round_half_even_nearest)+
  then have "\<bar>(of_int (round_half_even t) :: rat)\<bar> \<le> of_int N"
    using assms by (simp add: abs_if split: if_splits)
  then show ?thesis by (metis of_int_abs of_int_le_iff)
qed

lemma round_half_even_abs_ge:
  assumes "of_int N \<le> \<bar>t\<bar>"
  shows "N \<le> \<bar>round_half_even t\<bar>"
proof -
  have "\<bar>of_int (round_half_even t) - t\<bar> \<le> \<bar>of_int N - t\<bar>"
       "\<bar>of_int (round_half_even t) - t\<bar> \<le> \<bar>of_int (- N) - t\<bar>"
    by (rule round_half_even_nearest)+
  then have "of_int N \<le> \<bar>(of_int (round_half_even t) :: rat)\<bar>"
    using assms by (simp add: abs_if split: if_splits)
  then show ?thesis by (metis of_int_abs of_int_le_iff)
qed

lemma double_limit_powi: "double_limit = 2 powi 1024"
  by (simp add: double_limit_def)

lemma to_double_FiniteD:
  assumes "to_double x = Finite y" "x \<noteq> 0"
  shows "y = of_int (round_half_even (x / 2 powi ulp_exponent x)) * 2 powi ulp_exponent x"
    and "\<bar>y\<bar> < double_limit"
  using assms by (auto simp add: to_double_def Let_def split: if_splits)

lemma is_double_0 [simp]: "is_double 0"
  unfolding is_double_def by (rule exI [of _ 0], rule exI [of _ 0]) simp

lemma to_double_is_double:
  assumes "to_double x = Finite y"
  shows "is_double y"
proof (cases "x = 0")
  case True
  with assms show ?thesis by (simp add: to_double_def)
next
  case False
  define q where "q = ulp_exponent x"
  define t where "t = x / 2 powi q"
  define n where "n = round_half_even t"
  have y: "y = of_int n * 2 powi q" and fin: "\<bar>y\<bar> < 2 powi 1024"
    using to_double_FiniteD [OF assms False] by (simp_all add: n_def t_def q_def double_limit_powi)
  have qlo: "- 1074 \<le> q" by (simp add: q_def ulp_exponent_def)
  have "\<bar>t\<bar> \<le> of_int (2 ^ 53)" using scaled_bounds(1) [OF False] by (simp add: t_def q_def)
  then have nle: "\<bar>n\<bar> \<le> 2 ^ 53" unfolding n_def by (rule round_half_even_abs_le)
  have absy: "\<bar>y\<bar> = of_int \<bar>n\<bar> * 2 powi q" by (simp add: y abs_mult)
  show ?thesis
  proof (cases "n = 0")
    case True
    then show ?thesis by (simp add: y)
  next
    case n0: False
    show ?thesis
    proof (cases "\<bar>n\<bar> = 2 ^ 53")
      case True
      have "(2::rat) powi (q + 53) = of_int \<bar>n\<bar> * 2 powi q" by (simp add: True powi_split)
      also have "\<dots> < 2 powi 1024" using fin by (simp only: absy)
      finally have "q + 53 < 1024" by (rule powi_less_imp_less)
      then have k: "q + 1 \<le> 971" by simp
      have "n = 2 ^ 53 \<or> n = - (2 ^ 53)" using True by (simp add: abs_if split: if_splits)
      then have "y = of_int (n div 2) * 2 powi (q + 1)"
        by (auto simp add: y powi_split)
      moreover have "\<bar>n div 2\<bar> < 2 ^ 53"
        using \<open>n = 2 ^ 53 \<or> n = - (2 ^ 53)\<close> by auto
      ultimately show ?thesis
        unfolding is_double_def using k qlo
        by (intro exI [of _ "n div 2"] exI [of _ "q + 1"]) simp
    next
      case False
      with nle have nlt: "\<bar>n\<bar> < 2 ^ 53" by simp
      have "q \<le> 971"
      proof (rule ccontr)
        assume "\<not> q \<le> 971"
        then have big: "972 \<le> q" by simp
        then have "- 1074 \<le> floor_log2 \<bar>x\<bar> - 52"
          by (simp add: q_def ulp_exponent_def)
        from scaled_bounds(2) [OF \<open>x \<noteq> 0\<close> this]
        have "of_int (2 ^ 52) \<le> \<bar>t\<bar>" by (simp add: t_def q_def)
        then have "2 ^ 52 \<le> \<bar>n\<bar>" unfolding n_def by (rule round_half_even_abs_ge)
        then have "(2 ^ 52 :: rat) \<le> of_int \<bar>n\<bar>"
          by (metis of_int_le_iff of_int_numeral of_int_power)
        moreover have "(2::rat) powi 972 \<le> 2 powi q" using big by (rule powi_mono)
        ultimately have "2 ^ 52 * (2::rat) powi 972 \<le> of_int \<bar>n\<bar> * 2 powi q"
          by (intro mult_mono) simp_all
        moreover have "2 ^ 52 * (2::rat) powi 972 = 2 powi 1024"
          by (simp only: powi_split [symmetric] power_int_numeral [symmetric]) simp
        ultimately have "(2::rat) powi 1024 \<le> \<bar>y\<bar>" by (simp only: absy)
        with fin show False by linarith
      qed
      with nlt qlo show ?thesis
        unfolding is_double_def by (intro exI [of _ n] exI [of _ q]) (simp add: y)
    qed
  qed
qed

lemma round_half_even_ge: "of_int N \<le> t \<Longrightarrow> N \<le> round_half_even t"
proof (rule ccontr)
  assume a: "of_int N \<le> t" "\<not> N \<le> round_half_even t"
  then have "round_half_even t \<le> N - 1" by simp
  then have "(of_int (round_half_even t) :: rat) \<le> of_int (N - 1)" by (simp only: of_int_le_iff)
  with a(1) round_half_even_near [of t] show False by simp
qed

lemma round_half_even_le: "t \<le> of_int N \<Longrightarrow> round_half_even t \<le> N"
proof (rule ccontr)
  assume a: "t \<le> of_int N" "\<not> round_half_even t \<le> N"
  then have "N + 1 \<le> round_half_even t" by simp
  then have "(of_int (N + 1) :: rat) \<le> of_int (round_half_even t)" by (simp only: of_int_le_iff)
  with a(1) round_half_even_near [of t] show False by simp
qed

lemma scaled_times_quantum: "x / 2 powi q * 2 powi q = (x::rat)"
  by simp

lemma to_double_nearest_multiple:
  assumes "to_double x = Finite y" "x \<noteq> 0"
  shows "\<bar>x - y\<bar> \<le> \<bar>x - of_int j * 2 powi ulp_exponent x\<bar>"
proof -
  define q where "q = ulp_exponent x"
  define t where "t = x / 2 powi q"
  have y: "y = of_int (round_half_even t) * 2 powi q"
    using to_double_FiniteD(1) [OF assms] by (simp add: t_def q_def)
  have x: "x = t * 2 powi q" by (simp add: t_def)
  have "\<bar>x - y\<bar> = \<bar>of_int (round_half_even t) - t\<bar> * 2 powi q"
    unfolding y by (subst x) (simp add: abs_mult flip: left_diff_distrib abs_minus_commute)
  also have "\<dots> \<le> \<bar>of_int j - t\<bar> * 2 powi q"
    by (intro mult_right_mono round_half_even_nearest) simp
  also have "\<dots> = \<bar>x - of_int j * 2 powi q\<bar>"
    by (subst x) (simp add: abs_mult flip: left_diff_distrib abs_minus_commute)
  finally show ?thesis by (simp add: q_def)
qed

lemma to_double_nearest:
  assumes "to_double x = Finite y" "is_double z"
  shows "\<bar>x - y\<bar> \<le> \<bar>x - z\<bar>"
proof (cases "x = 0")
  case True
  with assms show ?thesis by (simp add: to_double_def)
next
  case False
  define e where "e = floor_log2 \<bar>x\<bar>"
  define q where "q = ulp_exponent x"
  have q: "q = max (e - 52) (- 1074)" by (simp add: q_def e_def ulp_exponent_def)
  have pos: "0 < \<bar>x\<bar>" using False by simp
  have b: "2 powi e \<le> \<bar>x\<bar>"
    using floor_log2_bounds [OF pos] by (simp_all add: e_def)
  from assms(2) obtain m k where m: "\<bar>m\<bar> < 2 ^ 53" and k: "- 1074 \<le> k"
    and z: "z = of_int m * 2 powi k"
    by (auto simp: is_double_def)
  note near = to_double_nearest_multiple [OF assms(1) False, folded q_def]
  show ?thesis
  proof (cases "q \<le> k")
    case True
    have "(2::rat) powi k = 2 powi (k - q) * 2 powi q" by (simp flip: powi_split)
    also have "(2::rat) powi (k - q) = of_int (2 ^ nat (k - q))"
      using True by (intro powi_nonneg_int) simp
    finally have "z = of_int (m * 2 ^ nat (k - q)) * 2 powi q" by (simp add: z)
    with near [of "m * 2 ^ nat (k - q)"] show ?thesis by simp
  next
    case False
    with k q have q2: "q = e - 52" by simp
    have "(of_int \<bar>m\<bar> :: rat) < of_int (2 ^ 53)" using m by (simp only: of_int_less_iff)
    then have "\<bar>z\<bar> < 2 ^ 53 * 2 powi k" by (simp add: z abs_mult)
    also have "\<dots> = 2 powi (53 + k)" by (simp add: powi_split)
    also have "\<dots> \<le> 2 powi e" using False q2 by (intro powi_mono) simp
    finally have zlt: "\<bar>z\<bar> < 2 powi e" .
    define s :: int where "s = (if 0 < x then 1 else - 1)"
    have "of_int (s * 2 ^ 52) * (2::rat) powi q = of_int s * (2 ^ 52 * 2 powi q)" by simp
    also have "2 ^ 52 * (2::rat) powi q = 2 powi (52 + q)" by (simp add: powi_split)
    also have "\<dots> = 2 powi e" by (simp add: q2)
    finally have j: "of_int (s * 2 ^ 52) * (2::rat) powi q = of_int s * 2 powi e" .
    have "\<bar>x - y\<bar> \<le> \<bar>x - of_int s * 2 powi e\<bar>"
      using near [of "s * 2 ^ 52"] unfolding j .
    also have "\<dots> = \<bar>x\<bar> - 2 powi e"
      using b \<open>x \<noteq> 0\<close> by (auto simp: s_def abs_if)
    also have "\<dots> < \<bar>x\<bar> - \<bar>z\<bar>" using zlt by simp
    also have "\<dots> \<le> \<bar>x - z\<bar>" by simp
    finally show ?thesis by simp
  qed
qed

lemma is_double_bound:
  assumes "is_double x"
  shows "\<bar>x\<bar> < double_limit"
proof -
  from assms obtain m k where m: "\<bar>m\<bar> < 2 ^ 53" and k: "k \<le> 971"
    and x: "x = of_int m * 2 powi k"
    by (auto simp: is_double_def)
  have "(of_int \<bar>m\<bar> :: rat) < of_int (2 ^ 53)" using m by (simp only: of_int_less_iff)
  then have "\<bar>x\<bar> < 2 ^ 53 * 2 powi k" by (simp add: x abs_mult)
  also have "\<dots> = 2 powi (53 + k)" by (simp add: powi_split)
  also have "\<dots> \<le> 2 powi 1024" using k by (intro powi_mono) simp
  finally show ?thesis by (simp only: double_limit_powi)
qed

lemma to_double_exact:
  assumes "is_double x"
  shows "to_double x = Finite x"
proof (cases "x = 0")
  case True
  then show ?thesis by (simp add: to_double_def)
next
  case False
  define e where "e = floor_log2 \<bar>x\<bar>"
  define q where "q = ulp_exponent x"
  have q: "q = max (e - 52) (- 1074)" by (simp add: q_def e_def ulp_exponent_def)
  have pos: "0 < \<bar>x\<bar>" using False by simp
  have b: "2 powi e \<le> \<bar>x\<bar>"
    using floor_log2_bounds [OF pos] by (simp_all add: e_def)
  from assms obtain m k where m: "\<bar>m\<bar> < 2 ^ 53" and k: "- 1074 \<le> k"
    and x: "x = of_int m * 2 powi k"
    by (auto simp: is_double_def)
  have "(of_int \<bar>m\<bar> :: rat) < of_int (2 ^ 53)" using m by (simp only: of_int_less_iff)
  then have "\<bar>x\<bar> < 2 ^ 53 * 2 powi k" by (simp add: x abs_mult)
  also have "\<dots> = 2 powi (53 + k)" by (simp add: powi_split)
  finally have "(2::rat) powi e < 2 powi (53 + k)" using b by simp
  then have "e < 53 + k" by (rule powi_less_imp_less)
  with k have qk: "q \<le> k" by (simp add: q)
  have "(2::rat) powi k = 2 powi (k - q) * 2 powi q" by (simp flip: powi_split)
  also have "(2::rat) powi (k - q) = of_int (2 ^ nat (k - q))"
    using qk by (intro powi_nonneg_int) simp
  finally have xq: "x = of_int (m * 2 ^ nat (k - q)) * 2 powi q" by (simp add: x)
  then have "x / 2 powi q = of_int (m * 2 ^ nat (k - q))" by simp
  then have "round_half_even (x / 2 powi q) = m * 2 ^ nat (k - q)"
    by (simp only: round_half_even_of_int)
  then have r: "of_int (round_half_even (x / 2 powi q)) * 2 powi q = x"
    using xq by simp
  have "\<bar>x\<bar> < double_limit" using assms by (rule is_double_bound)
  then have "\<not> double_limit \<le> x" "\<not> x \<le> - double_limit" by (simp_all add: abs_if split: if_splits)
  then show ?thesis
    using False r by (simp add: to_double_def Let_def flip: q_def)
qed

lemma is_double_of_int:
  assumes "\<bar>n\<bar> < 2 ^ 53"
  shows "is_double (of_int n)"
  unfolding is_double_def using assms by (intro exI [of _ n] exI [of _ 0]) simp

lemma to_double_eqI:
  assumes "x \<noteq> 0" "2 powi e \<le> \<bar>x\<bar>" "\<bar>x\<bar> < 2 powi (e + 1)"
    and "q = max (e - 52) (- 1074)"
    and "\<bar>of_int n - x / 2 powi q\<bar> \<le> 1 / 2"
    and "\<bar>of_int n - x / 2 powi q\<bar> = 1 / 2 \<longrightarrow> even n"
    and "\<bar>of_int n * 2 powi q\<bar> < double_limit"
  shows "to_double x = Finite (of_int n * 2 powi q)"
proof -
  have "floor_log2 \<bar>x\<bar> = e"
    using assms(1-3) by (intro floor_log2_unique) simp_all
  then have u: "ulp_exponent x = q" by (simp add: ulp_exponent_def assms(4))
  have r: "round_half_even (x / 2 powi q) = n"
    using assms(5,6) by (rule round_half_even_eqI)
  have "\<not> double_limit \<le> of_int n * 2 powi q" "\<not> of_int n * 2 powi q \<le> - double_limit"
    using assms(7) by (simp_all add: abs_if split: if_splits)
  then show ?thesis
    using assms(1) by (simp add: to_double_def Let_def u r)
qed

lemma round_half_even_uminus: "round_half_even (- t) = - round_half_even t"
proof (rule round_half_even_eqI)
  have e: "\<bar>of_int (- round_half_even t) - - t\<bar> = \<bar>of_int (round_half_even t) - t\<bar>"
    by (simp add: abs_if)
  show "\<bar>of_int (- round_half_even t) - - t\<bar> \<le> 1 / 2"
    unfolding e by (rule round_half_even_near)
  show "\<bar>of_int (- round_half_even t) - - t\<bar> = 1 / 2 \<longrightarrow> even (- round_half_even t)"
    unfolding e using round_half_even_tie [of t] by simp
qed

lemma double_limit_pos: "0 < double_limit"
  by (simp add: double_limit_powi)

lemma to_double_uminus:
  "to_double (- x) =
     (case to_double x of Finite y \<Rightarrow> Finite (- y) | PosInfinity \<Rightarrow> NegInfinity
      | NegInfinity \<Rightarrow> PosInfinity)"
proof (cases "x = 0")
  case True
  then show ?thesis by (simp add: to_double_def)
next
  case False
  define y :: rat
    where "y = of_int (round_half_even (x / 2 powi ulp_exponent x)) * 2 powi ulp_exponent x"
  have u: "ulp_exponent (- x) = ulp_exponent x" by (simp add: ulp_exponent_def)
  have y': "of_int (round_half_even (- (x / 2 powi ulp_exponent x))) * 2 powi ulp_exponent x = - y"
    by (simp add: y_def round_half_even_uminus)
  have a: "to_double x = (if double_limit \<le> y then PosInfinity
      else if y \<le> - double_limit then NegInfinity else Finite y)"
    using False by (simp add: to_double_def Let_def y_def)
  have b: "to_double (- x) = (if double_limit \<le> - y then PosInfinity
      else if - y \<le> - double_limit then NegInfinity else Finite (- y))"
    using False by (simp add: to_double_def Let_def u y')
  show ?thesis
    unfolding a b using double_limit_pos by auto
qed

lemma to_double_PosInfinity_iff:
  "to_double x = PosInfinity \<longleftrightarrow> 2 powi 1024 - 2 powi 970 \<le> x"
proof (cases "x \<le> 0")
  case True
  have "to_double x \<noteq> PosInfinity"
  proof (cases "x = 0")
    case True
    then show ?thesis by (simp add: to_double_def)
  next
    case False
    have "x / 2 powi ulp_exponent x \<le> of_int 0"
      using True by (simp add: divide_le_0_iff)
    then have "round_half_even (x / 2 powi ulp_exponent x) \<le> 0"
      by (rule round_half_even_le)
    then have "(of_int (round_half_even (x / 2 powi ulp_exponent x)) :: rat) \<le> 0"
      by simp
    then have "of_int (round_half_even (x / 2 powi ulp_exponent x)) * 2 powi ulp_exponent x \<le> (0::rat)"
      by (simp add: mult_le_0_iff)
    then have "\<not> double_limit \<le> of_int (round_half_even (x / 2 powi ulp_exponent x)) * 2 powi ulp_exponent x"
      using double_limit_pos by linarith
    then show ?thesis
      using False by (simp add: to_double_def Let_def)
  qed
  moreover have "(2::rat) powi 970 < 2 powi 1024" by (rule powi_strict_mono) simp
  then have "\<not> 2 powi 1024 - 2 powi 970 \<le> x" using True by linarith
  ultimately show ?thesis by simp
next
  case False
  then have xpos: "0 < x" and x0: "x \<noteq> 0" and ax: "\<bar>x\<bar> = x" by simp_all
  define e where "e = floor_log2 \<bar>x\<bar>"
  define q where "q = ulp_exponent x"
  define t where "t = x / 2 powi q"
  define n where "n = round_half_even t"
  define y :: rat where "y = of_int n * 2 powi q"
  have q: "q = max (e - 52) (- 1074)" by (simp add: q_def e_def ulp_exponent_def)
  have b: "2 powi e \<le> x" "x < 2 powi (e + 1)"
    using floor_log2_bounds [of "\<bar>x\<bar>"] xpos by (simp_all add: e_def ax)
  have td: "to_double x = (if double_limit \<le> y then PosInfinity
      else if y \<le> - double_limit then NegInfinity else Finite y)"
    using x0 by (simp add: to_double_def Let_def y_def n_def t_def q_def)
  then have inf: "to_double x = PosInfinity \<longleftrightarrow> 2 powi 1024 \<le> y"
    by (simp add: double_limit_powi)
  have tpos: "0 < t" using xpos by (simp add: t_def)
  have xt: "x = t * 2 powi q" by (simp add: t_def)
  have half: "(2::rat) powi 970 = 1 / 2 * 2 powi 971"
    using powi_split [of "- 1" 971] by simp
  have lim: "(2::rat) powi 1024 = 2 ^ 53 * 2 powi 971"
    using powi_split [of 53 971] by simp
  show ?thesis
  proof
    assume "to_double x = PosInfinity"
    then have big: "2 powi 1024 \<le> y" by (simp add: inf)
    show "2 powi 1024 - 2 powi 970 \<le> x"
    proof (rule ccontr)
      assume "\<not> 2 powi 1024 - 2 powi 970 \<le> x"
      then have lt: "x < 2 powi 1024 - 2 powi 970" by simp
      then have "x < 2 powi 1024" using powi_pos [of 970] by linarith
      with b(1) have "(2::rat) powi e < 2 powi 1024" by simp
      then have "e < 1024" by (rule powi_less_imp_less)
      then have q971: "q \<le> 971" by (simp add: q)
      have "\<bar>t\<bar> < 2 ^ 53" using scaled_bounds(1) [OF x0] by (simp add: t_def q_def)
      then have "t \<le> of_int (2 ^ 53)" by simp
      then have n53: "n \<le> 2 ^ 53" unfolding n_def by (rule round_half_even_le)
      show False
      proof (cases "q = 971")
        case True
        have "t * 2 powi 971 < (2 ^ 53 - 1 / 2) * 2 powi 971"
          using lt unfolding xt True lim half by (simp add: algebra_simps)
        then have "t < 2 ^ 53 - 1 / 2" by simp
        then have "t \<le> of_int (2 ^ 53 - 1) + 1 / 2" by simp
        moreover have "of_int n - t \<le> 1 / 2"
          using round_half_even_near [of t] by (simp add: n_def abs_if split: if_splits)
        ultimately have "(of_int n :: rat) < of_int (2 ^ 53)"
          using \<open>t < 2 ^ 53 - 1 / 2\<close> by simp
        then have "n < 2 ^ 53" by (simp only: of_int_less_iff)
        then have "n \<le> 2 ^ 53 - 1" by simp
        then have "(of_int n :: rat) \<le> of_int (2 ^ 53 - 1)" by (simp only: of_int_le_iff)
        then have "y \<le> of_int (2 ^ 53 - 1) * 2 powi 971"
          unfolding y_def True by (intro mult_right_mono) simp_all
        also have "\<dots> < 2 ^ 53 * 2 powi 971" by simp
        finally show False using big lim by simp
      next
        case False
        with q971 have "q \<le> 970" by simp
        then have "(2::rat) powi q \<le> 2 powi 970" by (rule powi_mono)
        moreover have "(of_int n :: rat) \<le> of_int (2 ^ 53)" using n53 by (simp only: of_int_le_iff)
        ultimately have "y \<le> of_int (2 ^ 53) * 2 powi 970"
          unfolding y_def by (intro mult_mono) simp_all
        also have "\<dots> = 2 powi 1023" using powi_split [of 53 970] by simp
        also have "\<dots> < 2 powi 1024" by (rule powi_strict_mono) simp
        finally show False using big by simp
      qed
    qed
  next
    assume ge: "2 powi 1024 - 2 powi 970 \<le> x"
    have "(2::rat) powi 1023 \<le> 2 powi 1024 - 2 powi 970"
    proof -
      have "(2::rat) powi 1024 = 2 * 2 powi 1023" using powi_split [of 1 1023] by simp
      moreover have "(2::rat) powi 970 \<le> 2 powi 1023" by (rule powi_mono) simp
      ultimately show ?thesis by linarith
    qed
    with ge b(2) have "(2::rat) powi 1023 < 2 powi (e + 1)" by linarith
    then have e1023: "1023 \<le> e" using powi_less_imp_less by fastforce
    then have q2: "q = e - 52" by (simp add: q)
    have "2 powi 1024 \<le> y"
    proof (cases "e = 1023")
      case True
      then have q971: "q = 971" by (simp add: q2)
      have "(2 ^ 53 - 1 / 2) * 2 powi 971 \<le> t * 2 powi 971"
        using ge unfolding xt q971 lim half by (simp add: algebra_simps)
      then have tge: "2 ^ 53 - 1 / 2 \<le> t" by simp
      then have "of_int (2 ^ 53 - 1) \<le> t" by simp
      then have n1: "2 ^ 53 - 1 \<le> n" unfolding n_def by (rule round_half_even_ge)
      have "n \<noteq> 2 ^ 53 - 1"
      proof
        assume eq: "n = 2 ^ 53 - 1"
        then have "\<bar>of_int n - t\<bar> = 1 / 2"
          using tge round_half_even_near [of t] by (simp add: n_def abs_if split: if_splits)
        then have "even n" unfolding n_def by (rule round_half_even_tie)
        with eq show False by simp
      qed
      with n1 have "2 ^ 53 \<le> n" by simp
      then have "(of_int (2 ^ 53) :: rat) \<le> of_int n" by (simp only: of_int_le_iff)
      then have "of_int (2 ^ 53) * 2 powi 971 \<le> y"
        unfolding y_def q971 by (intro mult_right_mono) simp_all
      then show ?thesis using lim by simp
    next
      case False
      with e1023 have e1024: "1024 \<le> e" by simp
      have "- 1074 \<le> floor_log2 \<bar>x\<bar> - 52" using e1023 by (simp add: e_def)
      from scaled_bounds(2) [OF x0 this] tpos have "of_int (2 ^ 52) \<le> t"
        by (simp add: t_def q_def)
      then have "2 ^ 52 \<le> n" unfolding n_def by (rule round_half_even_ge)
      then have "(of_int (2 ^ 52) :: rat) \<le> of_int n" by (simp only: of_int_le_iff)
      then have "of_int (2 ^ 52) * 2 powi q \<le> y"
        unfolding y_def by (intro mult_right_mono) simp_all
      moreover have "of_int (2 ^ 52) * (2::rat) powi q = 2 powi e"
        using powi_split [of 52 q] by (simp add: q2)
      moreover have "(2::rat) powi 1024 \<le> 2 powi e" using e1024 by (rule powi_mono)
      ultimately show ?thesis by simp
    qed
    then show "to_double x = PosInfinity" by (simp add: inf)
  qed
qed

lemma to_double_NegInfinity_iff:
  "to_double x = NegInfinity \<longleftrightarrow> x \<le> - (2 powi 1024 - 2 powi 970)"
proof -
  have "to_double x = NegInfinity \<longleftrightarrow> to_double (- x) = PosInfinity"
    by (simp add: to_double_uminus split: js_number.split)
  also have "\<dots> \<longleftrightarrow> 2 powi 1024 - 2 powi 970 \<le> - x"
    by (rule to_double_PosInfinity_iff)
  also have "\<dots> \<longleftrightarrow> x \<le> - (2 powi 1024 - 2 powi 970)"
    by linarith
  finally show ?thesis .
qed

lemma to_double_of_int:
  "\<bar>n\<bar> < 2 ^ 53 \<Longrightarrow> to_double (of_int n) = Finite (of_int n)"
  by (intro to_double_exact is_double_of_int)

lemma number_minus_of_int:
  assumes "\<bar>a - b\<bar> < 2 ^ 53"
  shows "number_minus (of_int a) (of_int b) = Finite (of_int (a - b))"
  using to_double_of_int [OF assms] by (simp add: number_minus_def)

lemma round2_of_int:
  assumes "\<bar>n\<bar> \<le> 2 ^ 46"
  shows "round2 (Finite (of_int n)) = Finite (of_int n)"
proof -
  have "\<bar>n * 100\<bar> < 2 ^ 53" "\<bar>n\<bar> < 2 ^ 53"
    using assms by (simp_all add: abs_mult)
  then have a: "to_double (of_int (n * 100)) = Finite (of_int (n * 100))"
    and b: "to_double (of_int n) = Finite (of_int n)"
    by (simp_all only: to_double_of_int)
  have f: "\<lfloor>(of_int (n * 100) :: rat) + 1 / 2\<rfloor> = n * 100"
    by linarith
  have "times_100 (Finite (of_int n)) = Finite (of_int (n * 100))"
    using a by (simp add: times_100_def)
  then have "Math_round (times_100 (Finite (of_int n))) = Finite (of_int (n * 100))"
    by (simp only: Math_round_def js_number.case f)
  then show ?thesis
    using b by (simp add: round2_def divided_by_100_def)
qed

lemma is_doubleI:
  "\<bar>m\<bar> < 2 ^ 53 \<Longrightarrow> - 1074 \<le> k \<Longrightarrow> k \<le> 971 \<Longrightarrow> is_double (of_int m * 2 powi k)"
  unfolding is_double_def by blast

lemma round2_1005_literal:
  "round2 (number_minus (1131529406376837 / 1125899906842624) 0) = Finite 1"
proof -
  have d: "is_double (1131529406376837 / 1125899906842624)"
    using is_doubleI [of 1131529406376837 "- 50"] by (simp add: power_int_minus)
  have a: "number_minus (1131529406376837 / 1125899906842624) 0
      = Finite (1131529406376837 / 1125899906842624)"
    using to_double_exact [OF d] by (simp add: number_minus_def)
  have "to_double (1131529406376837 / 1125899906842624 * 100)
      = Finite (of_int 7072058789855231 * 2 powi (max (6 - 52) (- 1074)))"
    by (rule to_double_eqI [where e = 6]) (simp_all add: double_limit_def power_int_minus)
  then have b: "times_100 (Finite (1131529406376837 / 1125899906842624))
      = Finite (7072058789855231 / 70368744177664)"
    by (simp add: times_100_def power_int_minus)
  have f: "\<lfloor>(7072058789855231 / 70368744177664 :: rat) + 1 / 2\<rfloor> = 100"
    by (rule floor_unique) simp_all
  have c: "Math_round (Finite (7072058789855231 / 70368744177664)) = Finite 100"
    by (simp only: Math_round_def js_number.case f) simp
  have e: "divided_by_100 (Finite 100) = Finite 1"
    using to_double_of_int [of 1] by (simp add: divided_by_100_def)
  show ?thesis
    by (simp only: round2_def a b c e)
qed

lemma to_double_tenth: "to_double (1 / 10) = Finite (3602879701896397 / 36028797018963968)"
proof -
  have "to_double (1 / 10) = Finite (of_int 7205759403792794 * 2 powi (max (- 4 - 52) (- 1074)))"
    by (rule to_double_eqI [where e = "- 4"]) (simp_all add: double_limit_def power_int_minus)
  then show ?thesis by (simp add: power_int_minus)
qed

lemma to_double_tie_down: "to_double (1 + 1 / 2 ^ 53) = Finite 1"
proof -
  have "to_double (1 + 1 / 2 ^ 53) = Finite (of_int 4503599627370496 * 2 powi (max (0 - 52) (- 1074)))"
    by (rule to_double_eqI [where e = 0]) (simp_all add: double_limit_def power_int_minus)
  then show ?thesis by (simp add: power_int_minus)
qed

lemma to_double_tie_up: "to_double (1 + 3 / 2 ^ 53) = Finite (1 + 1 / 2 ^ 51)"
proof -
  have "to_double (1 + 3 / 2 ^ 53) = Finite (of_int 4503599627370498 * 2 powi (max (0 - 52) (- 1074)))"
    by (rule to_double_eqI [where e = 0]) (simp_all add: double_limit_def power_int_minus)
  then show ?thesis by (simp add: power_int_minus)
qed

lemma round2_0015:
  "round2 (Finite (1080863910568919 / 2 ^ 56)) = Finite (5764607523034235 / 2 ^ 58)"
proof -
  have "to_double (1080863910568919 / 2 ^ 56 * 100)
      = Finite (of_int 6755399441055744 * 2 powi (max (0 - 52) (- 1074)))"
    by (rule to_double_eqI [where e = 0]) (simp_all add: double_limit_def power_int_minus)
  then have b: "times_100 (Finite (1080863910568919 / 2 ^ 56)) = Finite (3 / 2)"
    by (simp add: times_100_def power_int_minus)
  have f: "\<lfloor>(3 / 2 :: rat) + 1 / 2\<rfloor> = 2"
    by (rule floor_unique) simp_all
  have c: "Math_round (Finite (3 / 2)) = Finite 2"
    by (simp only: Math_round_def js_number.case f) simp
  have "to_double (2 / 100)
      = Finite (of_int 5764607523034235 * 2 powi (max (- 6 - 52) (- 1074)))"
    by (rule to_double_eqI [where e = "- 6"]) (simp_all add: double_limit_def power_int_minus)
  then have e: "divided_by_100 (Finite 2) = Finite (5764607523034235 / 2 ^ 58)"
    by (simp add: divided_by_100_def power_int_minus)
  show ?thesis
    by (simp only: round2_def b c e)
qed

lemma round2_1005:
  "round2 (number_minus (1131529406376837 / 2 ^ 50) 0) = Finite 1"
  using round2_1005_literal by simp

lemma round2_minus_of_int:
  assumes "\<bar>m - n\<bar> \<le> 2 ^ 46"
  shows "round2 (number_minus (of_int m) (of_int n)) = Finite (of_int (m - n))"
proof -
  have "\<bar>m - n\<bar> < 2 ^ 53" using assms by simp
  then show ?thesis
    using round2_of_int [OF assms] by (simp only: number_minus_of_int)
qed

lemma round2_unfold:
  "round2 (Finite g) =
     (case to_double (g * 100) of
        Finite t \<Rightarrow> to_double (of_int \<lfloor>t + 1 / 2\<rfloor> / 100)
      | PosInfinity \<Rightarrow> PosInfinity
      | NegInfinity \<Rightarrow> NegInfinity)"
  "round2 PosInfinity = PosInfinity"
  "round2 NegInfinity = NegInfinity"
  by (simp_all add: round2_def times_100_def Math_round_def divided_by_100_def
      split: js_number.split)

subsection \<open>Strings\<close>

lemma str_includes_sublist: "str_includes s p \<longleftrightarrow> sublist p s"
  by (induction s) (auto simp: sublist_Cons_right)

subsection \<open>Classification\<close>

lemma matches_rule_RR:
  "matches_rule RR reason \<longleftrightarrow> str_includes reason ''Shot themselves in the foot''"
  unfolding matches_rule_def category_rules_def by simp

lemma matches_rule_SelfHosp:
  "matches_rule SelfHosp reason \<longleftrightarrow>
     str_includes reason ''Severe emesis following Ipecac Syrup ingestion''"
  unfolding matches_rule_def category_rules_def by simp

lemma matches_rule_Casino:
  "matches_rule Casino reason \<longleftrightarrow>
     str_includes reason ''Punched in the face by Leslie'' \<or> str_includes reason ''face punch''
     \<or> str_includes reason ''kick to the throat'' \<or> str_includes reason ''choke hold''"
  unfolding matches_rule_def category_rules_def by simp

lemma matches_rule_PvP:
  "matches_rule PvP reason \<longleftrightarrow>
     list_ex (\<lambda>p. str_includes reason p) [''Lost to'', ''Mugged by'', ''Hospitalized by'']"
  unfolding matches_rule_def category_rules_def by simp

lemma matches_rule_OD:
  "matches_rule OD reason \<longleftrightarrow>
     list_ex (\<lambda>p. str_includes reason p) [''Overdosed on'', ''Collapsed after'']"
  unfolding matches_rule_def category_rules_def by simp

lemma getCategory_by_rules:
  "getCategory reason =
     (if matches_rule RR reason then RR
      else if matches_rule SelfHosp reason then SelfHosp
      else if matches_rule Casino reason then Casino
      else if matches_rule PvP reason then PvP
      else if matches_rule OD reason then OD
      else Crime)"
  unfolding matches_rule_RR matches_rule_SelfHosp matches_rule_Casino matches_rule_PvP
    matches_rule_OD getCategory_def ..

lemma first_match_by_rules:
  "first_match category_rules reason =
     (if matches_rule RR reason then RR
      else if matches_rule SelfHosp reason then SelfHosp
      else if matches_rule Casino reason then Casino
      else if matches_rule PvP reason then PvP
      else if matches_rule OD reason then OD
      else Crime)"
  unfolding matches_rule_RR matches_rule_SelfHosp matches_rule_Casino matches_rule_PvP
    matches_rule_OD
  unfolding category_rules_def
  by (simp only: first_match.simps list_ex_Cons_iff list_ex_Nil_iff simp_thms)

text \<open>
  Claim C4. For every reason text the category is the one of the first rule of the ordered
  table that the text matches, in the order RR, Self Hosp, Casino, PvP, OD, and Crime when no
  rule matches: a text that matches an RR pattern is RR whatever else it matches, a text
  that matches a later rule gets that rule's category when it matches no earlier rule, and
  in particular a text that matches both an RR pattern and a PvP pattern is RR.
\<close>

theorem getCategory_first_match:
  "getCategory reason = first_match category_rules reason
   \<and> (matches_rule RR reason \<longrightarrow> getCategory reason = RR)
   \<and> (\<not> matches_rule RR reason \<and> matches_rule SelfHosp reason
        \<longrightarrow> getCategory reason = SelfHosp)
   \<and> (\<not> matches_rule RR reason \<and> \<not> matches_rule SelfHosp reason
        \<and> matches_rule Casino reason \<longrightarrow> getCategory reason = Casino)
   \<and> (\<not> matches_rule RR reason \<and> \<not> matches_rule SelfHosp reason
        \<and> \<not> matches_rule Casino reason \<and> matches_rule PvP reason
        \<longrightarrow> getCategory reason = PvP)
   \<and> (\<not> matches_rule RR reason \<and> \<not> matches_rule SelfHosp reason
        \<and> \<not> matches_rule Casino reason \<and> \<not> matches_rule PvP reason
        \<and> matches_rule OD reason \<longrightarrow> getCategory reason = OD)
   \<and> (\<not> matches_rule RR reason \<and> \<not> matches_rule SelfHosp reason
        \<and> \<not> matches_rule Casino reason \<and> \<not> matches_rule PvP reason
        \<and> \<not> matches_rule OD reason \<longrightarrow> getCategory reason = Crime)
   \<and> (matches_rule RR reason \<and> matches_rule PvP reason \<longrightarrow> getCategory reason = RR)"
  unfolding first_match_by_rules getCategory_by_rules by simp

theorem getCategory_first_match_witness:
  "matches_rule RR ''Shot themselves in the foot; Hospitalized by Duke''
   \<and> matches_rule PvP ''Shot themselves in the foot; Hospitalized by Duke''
   \<and> getCategory ''Shot themselves in the foot; Hospitalized by Duke'' = RR
   \<and> \<not> matches_rule RR ''Overdosed on Xanax''
   \<and> matches_rule OD ''Overdosed on Xanax''
   \<and> getCategory ''Overdosed on Xanax'' = OD
   \<and> getCategory ''Hit by a car'' = Crime"
proof -
  have a: "matches_rule RR ''Shot themselves in the foot; Hospitalized by Duke''"
    unfolding matches_rule_RR by simp
  have b: "matches_rule PvP ''Shot themselves in the foot; Hospitalized by Duke''"
    unfolding matches_rule_PvP by simp
  have c: "\<not> matches_rule RR ''Overdosed on Xanax''"
    unfolding matches_rule_RR by simp
  have d: "\<not> matches_rule SelfHosp ''Overdosed on Xanax''"
    unfolding matches_rule_SelfHosp by simp
  have e: "\<not> matches_rule Casino ''Overdosed on Xanax''"
    unfolding matches_rule_Casino by simp
  have f: "\<not> matches_rule PvP ''Overdosed on Xanax''"
    unfolding matches_rule_PvP by simp
  have g: "matches_rule OD ''Overdosed on Xanax''"
    unfolding matches_rule_OD by simp
  have h: "\<not> matches_rule RR ''Hit by a car''" "\<not> matches_rule SelfHosp ''Hit by a car''"
    "\<not> matches_rule Casino ''Hit by a car''" "\<not> matches_rule PvP ''Hit by a car''"
    "\<not> matches_rule OD ''Hit by a car''"
    unfolding matches_rule_RR matches_rule_SelfHosp matches_rule_Casino matches_rule_PvP
      matches_rule_OD by simp_all
  note t1 = conjunct2 [OF getCategory_first_match, of "''Shot themselves in the foot; Hospitalized by Duke''"]
  note t2 = conjunct2 [OF getCategory_first_match, of "''Overdosed on Xanax''"]
  note t3 = conjunct2 [OF getCategory_first_match, of "''Hit by a car''"]
  have r1: "getCategory ''Shot themselves in the foot; Hospitalized by Duke'' = RR"
    using t1 a b by (simp only: simp_thms)
  have r2: "getCategory ''Overdosed on Xanax'' = OD"
    using t2 c d e f g by (simp only: simp_thms)
  have r3: "getCategory ''Hit by a car'' = Crime"
    using t3 h by (simp only: simp_thms)
  show ?thesis
    using a b c g r1 r2 r3 by (simp only: simp_thms)
qed

text \<open>
  Claim C5. The likelihood band of a chance is Low up to 30, Medium above 30 and up to 60,
  High above 60 and up to 80, and Very High above 80; the boundary values 30, 60 and 80 are
  Low, Medium and High, and 80.01 is Very High.
\<close>

theorem getLikelihood_bands:
  "(chance \<le> 30 \<longrightarrow> getLikelihood chance = Low)
   \<and> (30 < chance \<and> chance \<le> 60 \<longrightarrow> getLikelihood chance = Medium)
   \<and> (60 < chance \<and> chance \<le> 80 \<longrightarrow> getLikelihood chance = High)
   \<and> (80 < chance \<longrightarrow> getLikelihood chance = VeryHigh)
   \<and> getLikelihood 30 = Low
   \<and> getLikelihood 60 = Medium
   \<and> getLikelihood 80 = High
   \<and> getLikelihood (8001 / 100) = VeryHigh"
  by (simp add: getLikelihood_def)

theorem getLikelihood_bands_witness:
  "getLikelihood 25 = Low \<and> getLikelihood (91 / 2) = Medium
   \<and> getLikelihood 70 = High \<and> getLikelihood 95 = VeryHigh"
  using getLikelihood_bands [of 25] getLikelihood_bands [of "91 / 2"]
    getLikelihood_bands [of 70] getLikelihood_bands [of 95]
  by simp

subsection \<open>Enrichment\<close>

lemma insort_cmp_key:
  "insort_cmp (\<lambda>a b. of_int (f a) - of_int (f b)) x ys = insort_key f x ys"
  by (induction ys) auto

lemma sort_cmp_key:
  "sort_cmp (\<lambda>a b. of_int (f a) - of_int (f b)) xs = sort_key f xs"
  by (induction xs) (simp_all add: sort_cmp_def insort_cmp_key)

lemma insort_key_map:
  "insort_key f (g x) (map g xs) = map g (insort_key (\<lambda>a. f (g a)) x xs)"
  by (induction xs) auto

lemma sort_key_map: "sort_key f (map g xs) = map g (sort_key (\<lambda>a. f (g a)) xs)"
  by (induction xs) (simp_all add: insort_key_map)

lemma enrich_basic_raw [simp]:
  "revive_id (enrich_basic r) = revive_id r"
  "reviver (enrich_basic r) = reviver r"
  "target (enrich_basic r) = target r"
  "result (enrich_basic r) = result r"
  "success_chance (enrich_basic r) = success_chance r"
  "timestamp (enrich_basic r) = timestamp r"
  unfolding enrich_basic_def Let_def by simp_all

lemma enrich_basic_Gain [simp]: "Gain (enrich_basic r) = None"
  unfolding enrich_basic_def Let_def by simp

lemma skill_or_0_enrich_basic [simp]: "skill_or_0 (enrich_basic r) = skill_or_0 r"
  by (simp add: skill_or_0_def)

lemma zip_map_index:
  "zip (map f rs) [0..<length rs] = map (\<lambda>(i, r). (f r, i)) (zip [0..<length rs] rs)"
  by (rule nth_equalityI) simp_all

lemma mySuccessfulRevives_subsequence:
  "mySuccessfulRevives (map enrich_basic rs) uid =
     map (\<lambda>(i, r). (enrich_basic r, i)) (gain_subsequence rs uid)"
proof -
  let ?g = "\<lambda>(i, r). (enrich_basic r, i)"
  let ?P = "\<lambda>(revive, index). reviver_id (reviver revive) = uid
            \<and> target_id (target revive) \<noteq> uid \<and> result revive = ''success''"
  have 1: "(?P \<circ> ?g) = (\<lambda>(i, r). in_gain_subsequence uid r)"
    by (auto simp: fun_eq_iff in_gain_subsequence_def)
  have 2: "(\<lambda>a. timestamp (fst (?g a))) = (\<lambda>(i, r). timestamp r)"
    by (auto simp: fun_eq_iff)
  have "mySuccessfulRevives (map enrich_basic rs) uid =
      sort_key (\<lambda>a. timestamp (fst a)) (filter ?P (map ?g (zip [0..<length rs] rs)))"
    unfolding mySuccessfulRevives_def sort_cmp_key length_map zip_map_index ..
  also have "\<dots> = map ?g (sort_key (\<lambda>a. timestamp (fst (?g a)))
      (filter (?P \<circ> ?g) (zip [0..<length rs] rs)))"
    unfolding filter_map sort_key_map ..
  also have "\<dots> = map ?g (gain_subsequence rs uid)"
    unfolding 1 2 gain_subsequence_def ..
  finally show ?thesis .
qed

lemma gain_step_eq:
  "gain_step ms i enr = enr[snd (ms ! i) := (enr ! snd (ms ! i))\<lparr>Gain := Some (gain_at ms i)\<rparr>]"
  by (simp add: gain_step_def gain_at_def Let_def)

lemma length_fold_gain_step [simp]: "length (fold (gain_step ms) ks enr) = length enr"
  by (induction ks arbitrary: enr) (simp_all add: gain_step_eq)

lemma fold_gain_step_other:
  "\<forall>k<n. snd (ms ! k) \<noteq> j \<Longrightarrow> fold (gain_step ms) [0..<n] enr ! j = enr ! j"
  by (induction n) (simp_all add: gain_step_eq)

lemma fold_gain_step_at:
  assumes "distinct (map snd ms)" "\<forall>p\<in>set ms. snd p < length enr" "n \<le> length ms" "k < n"
  shows "fold (gain_step ms) [0..<n] enr ! snd (ms ! k) =
           (enr ! snd (ms ! k))\<lparr>Gain := Some (gain_at ms k)\<rparr>"
  using assms(3,4)
proof (induction n)
  case 0
  then show ?case by simp
next
  case (Suc n)
  have idx: "\<And>a b. a < length ms \<Longrightarrow> b < length ms \<Longrightarrow> a \<noteq> b \<Longrightarrow> snd (ms ! a) \<noteq> snd (ms ! b)"
    using assms(1) by (metis length_map nth_eq_iff_index_eq nth_map)
  have lt: "snd (ms ! n) < length enr"
    using assms(2) Suc.prems by simp
  define E where "E = fold (gain_step ms) [0..<n] enr"
  have len: "length E = length enr"
    by (simp add: E_def)
  have step: "fold (gain_step ms) [0..<Suc n] enr =
      E[snd (ms ! n) := (E ! snd (ms ! n))\<lparr>Gain := Some (gain_at ms n)\<rparr>]"
    by (simp add: E_def gain_step_eq [symmetric])
  show ?case
  proof (cases "k = n")
    case True
    have "\<forall>k'<n. snd (ms ! k') \<noteq> snd (ms ! n)"
      using idx Suc.prems by simp
    then have "E ! snd (ms ! n) = enr ! snd (ms ! n)"
      unfolding E_def by (rule fold_gain_step_other)
    with True lt len show ?thesis
      unfolding step by simp
  next
    case False
    with Suc.prems have kn: "k < n" by simp
    then have ne: "snd (ms ! k) \<noteq> snd (ms ! n)"
      using idx Suc.prems by simp
    have "E ! snd (ms ! k) = (enr ! snd (ms ! k))\<lparr>Gain := Some (gain_at ms k)\<rparr>"
      unfolding E_def using Suc.IH kn Suc.prems by simp
    with ne show ?thesis
      unfolding step by simp
  qed
qed

lemma gain_subsequence_set:
  "set (gain_subsequence rs uid) =
     {(i, r). i < length rs \<and> r = rs ! i \<and> in_gain_subsequence uid r}"
proof -
  have "set (zip [0..<length rs] rs) = {(i, r). i < length rs \<and> r = rs ! i}"
  proof (rule set_eqI)
    fix p :: "nat \<times> ReviveData"
    obtain i r where p: "p = (i, r)" by (cases p)
    have "(i, r) \<in> set (zip [0..<length rs] rs) \<longleftrightarrow> i < length rs \<and> r = rs ! i"
    proof
      assume "(i, r) \<in> set (zip [0..<length rs] rs)"
      then show "i < length rs \<and> r = rs ! i"
        by (auto simp: in_set_zip)
    next
      assume a: "i < length rs \<and> r = rs ! i"
      then have "[0..<length rs] ! i = i \<and> rs ! i = r \<and> i < length [0..<length rs] \<and> i < length rs"
        by simp
      then show "(i, r) \<in> set (zip [0..<length rs] rs)"
        unfolding in_set_zip fst_conv snd_conv by (rule exI)
    qed
    then show "p \<in> set (zip [0..<length rs] rs) \<longleftrightarrow> p \<in> {(i, r). i < length rs \<and> r = rs ! i}"
      by (simp add: p)
  qed
  then show ?thesis
    by (auto simp: gain_subsequence_def)
qed

lemma gain_subsequence_distinct: "distinct (map fst (gain_subsequence rs uid))"
proof -
  have "distinct (map fst (zip [0..<length rs] rs))"
    by simp
  then have "distinct (map fst (filter (\<lambda>(i, r). in_gain_subsequence uid r) (zip [0..<length rs] rs)))"
    by (rule distinct_map_filter)
  then show ?thesis
    by (simp add: gain_subsequence_def distinct_map)
qed

lemma gain_subsequence_sorted:
  "sorted (map (\<lambda>(i, r). timestamp r) (gain_subsequence rs uid))"
  by (simp add: gain_subsequence_def)

lemma gain_at_subsequence:
  "Suc k < length sub \<Longrightarrow>
   gain_at (map (\<lambda>(i, r). (enrich_basic r, i)) sub) k = spec_gain (snd (sub ! k)) (snd (sub ! Suc k))"
  by (simp add: gain_at_def spec_gain_def split_beta)

lemma enrichRevives_fold:
  "enrichRevives rs uid =
     fold (gain_step (map (\<lambda>(i, r). (enrich_basic r, i)) (gain_subsequence rs uid)))
       [0..<length (gain_subsequence rs uid) - 1] (map enrich_basic rs)"
proof (cases "rs = []")
  case True
  then show ?thesis by (simp add: enrichRevives_def gain_subsequence_def)
next
  case False
  then show ?thesis
    by (simp add: enrichRevives_def mySuccessfulRevives_subsequence Let_def)
qed

lemma enrichRevives_length [simp]: "length (enrichRevives rs uid) = length rs"
  by (simp add: enrichRevives_fold)

lemma enrichRevives_nth_other:
  assumes "i < length rs"
    and "\<forall>k. Suc k < length (gain_subsequence rs uid) \<longrightarrow> fst (gain_subsequence rs uid ! k) \<noteq> i"
  shows "enrichRevives rs uid ! i = enrich_basic (rs ! i)"
proof -
  let ?sub = "gain_subsequence rs uid"
  let ?ms = "map (\<lambda>(i, r). (enrich_basic r, i)) ?sub"
  have "\<forall>k<length ?sub - 1. snd (?ms ! k) \<noteq> i"
    using assms(2) by (auto simp: split_beta)
  then have "fold (gain_step ?ms) [0..<length ?sub - 1] (map enrich_basic rs) ! i
      = map enrich_basic rs ! i"
    by (rule fold_gain_step_other)
  with assms(1) show ?thesis
    by (simp add: enrichRevives_fold)
qed

lemma enrichRevives_nth_gain:
  assumes "Suc k < length (gain_subsequence rs uid)"
  shows "enrichRevives rs uid ! fst (gain_subsequence rs uid ! k) =
     (enrich_basic (snd (gain_subsequence rs uid ! k)))
       \<lparr>Gain := Some (spec_gain (snd (gain_subsequence rs uid ! k)) (snd (gain_subsequence rs uid ! Suc k)))\<rparr>"
proof -
  let ?sub = "gain_subsequence rs uid"
  let ?g = "\<lambda>(i, r). (enrich_basic r, i)"
  let ?ms = "map ?g ?sub"
  have k: "k < length ?sub" using assms by simp
  have snd_ms: "map snd ?ms = map fst ?sub"
    by (simp add: split_beta)
  have d: "distinct (map snd ?ms)"
    unfolding snd_ms by (rule gain_subsequence_distinct)
  have mem: "?sub ! k \<in> set ?sub"
    using k by simp
  then have pos: "fst (?sub ! k) < length rs" "snd (?sub ! k) = rs ! fst (?sub ! k)"
    by (auto simp: gain_subsequence_set)
  have b: "\<forall>p\<in>set ?ms. snd p < length (map enrich_basic rs)"
    by (auto simp: gain_subsequence_set)
  have "fold (gain_step ?ms) [0..<length ?ms - 1] (map enrich_basic rs) ! snd (?ms ! k) =
      (map enrich_basic rs ! snd (?ms ! k))\<lparr>Gain := Some (gain_at ?ms k)\<rparr>"
    using d b by (rule fold_gain_step_at) (use assms in simp_all)
  moreover have "snd (?ms ! k) = fst (?sub ! k)"
    using k by (simp add: split_beta)
  ultimately show ?thesis
    using pos assms by (simp add: enrichRevives_fold gain_at_subsequence)
qed


lemma enrichRevives_Gain_last:
  assumes "gain_subsequence rs uid \<noteq> []"
  shows "enrichRevives rs uid ! fst (last (gain_subsequence rs uid)) =
     enrich_basic (snd (last (gain_subsequence rs uid)))"
proof -
  let ?sub = "gain_subsequence rs uid"
  have "last ?sub \<in> set ?sub"
    using assms by simp
  then have pos: "fst (last ?sub) < length rs" "snd (last ?sub) = rs ! fst (last ?sub)"
    by (auto simp: gain_subsequence_set)
  have l: "last ?sub = ?sub ! (length ?sub - 1)"
    using assms by (rule last_conv_nth)
  have "\<forall>k. Suc k < length ?sub \<longrightarrow> fst (?sub ! k) \<noteq> fst (last ?sub)"
  proof (intro allI impI)
    fix k assume k: "Suc k < length ?sub"
    have "map fst ?sub ! k \<noteq> map fst ?sub ! (length ?sub - 1)"
      using gain_subsequence_distinct [of rs uid] k
      by (simp add: nth_eq_iff_index_eq del: nth_map)
    with k show "fst (?sub ! k) \<noteq> fst (last ?sub)"
      by (simp add: l)
  qed
  with pos(1) have "enrichRevives rs uid ! fst (last ?sub) = enrich_basic (rs ! fst (last ?sub))"
    by (rule enrichRevives_nth_other)
  with pos(2) show ?thesis by simp
qed

lemma enrichRevives_Gain_outside:
  assumes "i < length rs" "\<not> in_gain_subsequence uid (rs ! i)"
  shows "enrichRevives rs uid ! i = enrich_basic (rs ! i)"
proof -
  let ?sub = "gain_subsequence rs uid"
  have "\<forall>k. Suc k < length ?sub \<longrightarrow> fst (?sub ! k) \<noteq> i"
  proof (intro allI impI)
    fix k assume "Suc k < length ?sub"
    then have "?sub ! k \<in> set ?sub" by simp
    then have "in_gain_subsequence uid (rs ! fst (?sub ! k))"
      by (auto simp: gain_subsequence_set)
    with assms(2) show "fst (?sub ! k) \<noteq> i" by auto
  qed
  with assms(1) show ?thesis by (rule enrichRevives_nth_other)
qed

lemma gain_subsequence_three:
  assumes "in_gain_subsequence uid r1" "in_gain_subsequence uid r2" "in_gain_subsequence uid r3"
    and "timestamp r1 \<le> timestamp r2" "timestamp r2 \<le> timestamp r3"
  shows "gain_subsequence [r1, r2, r3] uid = [(0, r1), (1, r2), (2, r3)]"
proof -
  have "zip [0..<length [r1, r2, r3]] [r1, r2, r3] = [(0, r1), (1, r2), (2, r3)]"
    by (simp add: upt_rec)
  with assms show ?thesis
    by (simp add: gain_subsequence_def)
qed

text \<open>
  Claim C1. For every list of raw records and every reference actor, the records that get a
  skill gain are those of the subsequence of the actor's successful revives of others, taken
  in ascending order of timestamp: each record of that sequence but the last gets
  \<open>round2 (current skill - next skill)\<close>, or 0 when the next record's skill is at least
  100, a missing skill counting as 0; the last record of the sequence and every record
  outside it have no gain. Three such records in time order with skills 50, 40 and 20 get
  the gains 10, 20 and none.

  The difference is the double nearest to the exact difference, and \<open>round2\<close> is
  \<^verbatim>\<open>Math.round(gain * 100) / 100\<close>: the double nearest to the hundredfold, the integer
  nearest to that (of two, the greater), and the double nearest to its hundredth. The
  nearest double is a double at least as close as every other one, of two equally close the
  one of even significand, every double is its own nearest double, and the result is an
  infinity from \<open>2 ^ 1024 - 2 ^ 970\<close> on. So integer skills give their exact difference,
  while the doubles nearest to 1.005 and to 0.015 give 1 and the double nearest to 0.02.
\<close>

theorem enrichRevives_skillGain:
  "length (enrichRevives rs uid) = length rs
   \<and> set (gain_subsequence rs uid) =
       {(i, r). i < length rs \<and> r = rs ! i \<and> reviver_id (reviver r) = uid
          \<and> target_id (target r) \<noteq> uid \<and> result r = ''success''}
   \<and> distinct (map fst (gain_subsequence rs uid))
   \<and> sorted (map (\<lambda>(i, r). timestamp r) (gain_subsequence rs uid))
   \<and> (\<forall>k. Suc k < length (gain_subsequence rs uid) \<longrightarrow>
         Gain (enrichRevives rs uid ! fst (gain_subsequence rs uid ! k)) =
           Some (if (case skill (reviver (snd (gain_subsequence rs uid ! Suc k))) of
                       None \<Rightarrow> 0 | Some s \<Rightarrow> s) \<ge> 100
                 then Finite 0
                 else round2 (number_minus
                        (case skill (reviver (snd (gain_subsequence rs uid ! k))) of
                           None \<Rightarrow> 0 | Some s \<Rightarrow> s)
                        (case skill (reviver (snd (gain_subsequence rs uid ! Suc k))) of
                           None \<Rightarrow> 0 | Some s \<Rightarrow> s))))
   \<and> (gain_subsequence rs uid \<noteq> [] \<longrightarrow>
         Gain (enrichRevives rs uid ! fst (last (gain_subsequence rs uid))) = None)
   \<and> (\<forall>i<length rs.
         \<not> (reviver_id (reviver (rs ! i)) = uid \<and> target_id (target (rs ! i)) \<noteq> uid
            \<and> result (rs ! i) = ''success'')
         \<longrightarrow> Gain (enrichRevives rs uid ! i) = None)
   \<and> number_minus a b = to_double (a - b)
   \<and> round2 (Finite g) =
        (case to_double (g * 100) of
           Finite t \<Rightarrow> to_double (of_int \<lfloor>t + 1 / 2\<rfloor> / 100)
         | PosInfinity \<Rightarrow> PosInfinity
         | NegInfinity \<Rightarrow> NegInfinity)
   \<and> round2 PosInfinity = PosInfinity
   \<and> round2 NegInfinity = NegInfinity
   \<and> (is_double x \<longleftrightarrow>
        (\<exists>m k. \<bar>m\<bar> < 2 ^ 53 \<and> - 1074 \<le> k \<and> k \<le> 971 \<and> x = of_int m * 2 powi k))
   \<and> (to_double x = Finite y \<longrightarrow> is_double y \<and> (\<forall>z. is_double z \<longrightarrow> \<bar>x - y\<bar> \<le> \<bar>x - z\<bar>))
   \<and> (is_double x \<longrightarrow> to_double x = Finite x)
   \<and> (to_double x = PosInfinity \<longleftrightarrow> 2 ^ 1024 - 2 ^ 970 \<le> x)
   \<and> (to_double x = NegInfinity \<longleftrightarrow> x \<le> - (2 ^ 1024 - 2 ^ 970))
   \<and> to_double (1 + 1 / 2 ^ 53) = Finite 1
   \<and> to_double (1 + 3 / 2 ^ 53) = Finite (1 + 1 / 2 ^ 51)
   \<and> (\<bar>m - n\<bar> \<le> 2 ^ 46 \<longrightarrow>
        round2 (number_minus (of_int m) (of_int n)) = Finite (of_int (m - n)))
   \<and> round2 (number_minus (1131529406376837 / 2 ^ 50) 0) = Finite 1
   \<and> round2 (Finite (1080863910568919 / 2 ^ 56)) = Finite (5764607523034235 / 2 ^ 58)
   \<and> (in_gain_subsequence uid r1 \<and> in_gain_subsequence uid r2 \<and> in_gain_subsequence uid r3
        \<and> timestamp r1 \<le> timestamp r2 \<and> timestamp r2 \<le> timestamp r3
        \<and> skill (reviver r1) = Some 50 \<and> skill (reviver r2) = Some 40
        \<and> skill (reviver r3) = Some 20
        \<longrightarrow> map Gain (enrichRevives [r1, r2, r3] uid)
              = [Some (Finite 10), Some (Finite 20), None])"
proof (intro conjI)
  show "length (enrichRevives rs uid) = length rs"
    by simp
  show "set (gain_subsequence rs uid) =
       {(i, r). i < length rs \<and> r = rs ! i \<and> reviver_id (reviver r) = uid
          \<and> target_id (target r) \<noteq> uid \<and> result r = ''success''}"
    unfolding gain_subsequence_set in_gain_subsequence_def ..
  show "distinct (map fst (gain_subsequence rs uid))"
    by (rule gain_subsequence_distinct)
  show "sorted (map (\<lambda>(i, r). timestamp r) (gain_subsequence rs uid))"
    by (rule gain_subsequence_sorted)
  show "\<forall>k. Suc k < length (gain_subsequence rs uid) \<longrightarrow>
         Gain (enrichRevives rs uid ! fst (gain_subsequence rs uid ! k)) =
           Some (if (case skill (reviver (snd (gain_subsequence rs uid ! Suc k))) of
                       None \<Rightarrow> 0 | Some s \<Rightarrow> s) \<ge> 100
                 then Finite 0
                 else round2 (number_minus
                        (case skill (reviver (snd (gain_subsequence rs uid ! k))) of
                           None \<Rightarrow> 0 | Some s \<Rightarrow> s)
                        (case skill (reviver (snd (gain_subsequence rs uid ! Suc k))) of
                           None \<Rightarrow> 0 | Some s \<Rightarrow> s)))"
    by (simp add: enrichRevives_nth_gain spec_gain_def skill_or_0_def)
  show "gain_subsequence rs uid \<noteq> [] \<longrightarrow>
         Gain (enrichRevives rs uid ! fst (last (gain_subsequence rs uid))) = None"
    by (simp add: enrichRevives_Gain_last)
  show "\<forall>i<length rs.
         \<not> (reviver_id (reviver (rs ! i)) = uid \<and> target_id (target (rs ! i)) \<noteq> uid
            \<and> result (rs ! i) = ''success'')
         \<longrightarrow> Gain (enrichRevives rs uid ! i) = None"
    using enrichRevives_Gain_outside [of _ rs uid]
    unfolding in_gain_subsequence_def by simp
  show "number_minus a b = to_double (a - b)"
    by (rule number_minus_def)
  show "round2 (Finite g) =
        (case to_double (g * 100) of
           Finite t \<Rightarrow> to_double (of_int \<lfloor>t + 1 / 2\<rfloor> / 100)
         | PosInfinity \<Rightarrow> PosInfinity
         | NegInfinity \<Rightarrow> NegInfinity)"
    by (rule round2_unfold)
  show "round2 PosInfinity = PosInfinity" "round2 NegInfinity = NegInfinity"
    by (rule round2_unfold)+
  show "is_double x \<longleftrightarrow>
        (\<exists>m k. \<bar>m\<bar> < 2 ^ 53 \<and> - 1074 \<le> k \<and> k \<le> 971 \<and> x = of_int m * 2 powi k)"
    by (rule is_double_def)
  show "to_double x = Finite y \<longrightarrow> is_double y \<and> (\<forall>z. is_double z \<longrightarrow> \<bar>x - y\<bar> \<le> \<bar>x - z\<bar>)"
    using to_double_is_double [of x y] to_double_nearest [of x y] by blast
  show "is_double x \<longrightarrow> to_double x = Finite x"
    using to_double_exact [of x] by blast
  have p: "(2::rat) powi 1024 - 2 powi 970 = 2 ^ 1024 - 2 ^ 970"
    by (simp only: power_int_numeral)
  show "to_double x = PosInfinity \<longleftrightarrow> 2 ^ 1024 - 2 ^ 970 \<le> x"
    using to_double_PosInfinity_iff [of x] unfolding p .
  show "to_double x = NegInfinity \<longleftrightarrow> x \<le> - (2 ^ 1024 - 2 ^ 970)"
    using to_double_NegInfinity_iff [of x] unfolding p .
  show "to_double (1 + 1 / 2 ^ 53) = Finite 1"
    by (rule to_double_tie_down)
  show "to_double (1 + 3 / 2 ^ 53) = Finite (1 + 1 / 2 ^ 51)"
    by (rule to_double_tie_up)
  show "\<bar>m - n\<bar> \<le> 2 ^ 46 \<longrightarrow>
        round2 (number_minus (of_int m) (of_int n)) = Finite (of_int (m - n))"
    using round2_minus_of_int [of m n] by blast
  show "round2 (number_minus (1131529406376837 / 2 ^ 50) 0) = Finite 1"
    by (rule round2_1005)
  show "round2 (Finite (1080863910568919 / 2 ^ 56)) = Finite (5764607523034235 / 2 ^ 58)"
    by (rule round2_0015)
  show "in_gain_subsequence uid r1 \<and> in_gain_subsequence uid r2 \<and> in_gain_subsequence uid r3
        \<and> timestamp r1 \<le> timestamp r2 \<and> timestamp r2 \<le> timestamp r3
        \<and> skill (reviver r1) = Some 50 \<and> skill (reviver r2) = Some 40
        \<and> skill (reviver r3) = Some 20
        \<longrightarrow> map Gain (enrichRevives [r1, r2, r3] uid)
              = [Some (Finite 10), Some (Finite 20), None]"
  proof
    assume a: "in_gain_subsequence uid r1 \<and> in_gain_subsequence uid r2 \<and> in_gain_subsequence uid r3
        \<and> timestamp r1 \<le> timestamp r2 \<and> timestamp r2 \<le> timestamp r3
        \<and> skill (reviver r1) = Some 50 \<and> skill (reviver r2) = Some 40
        \<and> skill (reviver r3) = Some 20"
    let ?rs = "[r1, r2, r3]"
    let ?out = "enrichRevives ?rs uid"
    have sub: "gain_subsequence ?rs uid = [(0, r1), (1, r2), (2, r3)]"
      using a by (intro gain_subsequence_three) simp_all
    have g0: "?out ! 0 = (enrich_basic r1)\<lparr>Gain := Some (spec_gain r1 r2)\<rparr>"
      using enrichRevives_nth_gain [of 0 ?rs uid] by (simp add: sub)
    have g1: "?out ! Suc 0 = (enrich_basic r2)\<lparr>Gain := Some (spec_gain r2 r3)\<rparr>"
      using enrichRevives_nth_gain [of "Suc 0" ?rs uid] by (simp add: sub)
    have g2: "?out ! 2 = enrich_basic r3"
      using enrichRevives_Gain_last [of ?rs uid] by (simp add: sub)
    have r: "round2 (number_minus 50 40) = Finite 10" "round2 (number_minus 40 20) = Finite 20"
      using round2_minus_of_int [of 50 40] round2_minus_of_int [of 40 20] by simp_all
    have s: "spec_gain r1 r2 = Finite 10" "spec_gain r2 r3 = Finite 20"
      using a r by (simp_all add: spec_gain_def skill_or_0_def)
    have "length ?out = 3" by simp
    then have "?out = [?out ! 0, ?out ! Suc 0, ?out ! 2]"
      by (auto simp: list_eq_iff_nth_eq less_Suc_eq numeral_3_eq_3 numeral_2_eq_2)
    then have "map Gain ?out = [Gain (?out ! 0), Gain (?out ! Suc 0), Gain (?out ! 2)]"
      by (metis list.simps(8,9))
    then show "map Gain ?out = [Some (Finite 10), Some (Finite 20), None]"
      by (simp add: g0 g1 g2 s)
  qed
qed

theorem enrichRevives_skillGain_witness:
  "Gain (enrichRevives sample_revives 7 ! 2) = Some (Finite 10)
   \<and> Gain (enrichRevives sample_revives 7 ! 3) = Some (Finite 20)
   \<and> Gain (enrichRevives sample_revives 7 ! 0) = None
   \<and> Gain (enrichRevives sample_revives 7 ! 1) = None
   \<and> map Gain (enrichRevives [sample_revives ! 2, sample_revives ! 3, sample_revives ! 0] 7)
       = [Some (Finite 10), Some (Finite 20), None]
   \<and> to_double (1 / 10) = Finite (3602879701896397 / 2 ^ 55)
   \<and> is_double (3602879701896397 / 2 ^ 55)
   \<and> is_double (1 / 8)
   \<and> \<bar>1 / 10 - 3602879701896397 / 2 ^ 55\<bar> \<le> \<bar>1 / 10 - 1 / (8::rat)\<bar>
   \<and> to_double (1 / 8) = Finite (1 / 8)
   \<and> \<bar>50 - 40\<bar> \<le> (2 ^ 46 :: int)
   \<and> round2 (number_minus (of_int 50) (of_int 40)) = Finite (of_int (50 - 40))"
proof -
  let ?a = "sample_revives ! 0" and ?b = "sample_revives ! 1"
    and ?c = "sample_revives ! 2" and ?d = "sample_revives ! 3"
  have sub: "gain_subsequence sample_revives 7 = [(2, ?c), (3, ?d), (0, ?a)]"
    by code_simp
  have len: "length sample_revives = 4"
    by code_simp
  have skr: "skill (reviver ?c) = Some 50" "skill (reviver ?d) = Some 40" "skill (reviver ?a) = Some 20"
    by code_simp+
  have mem: "in_gain_subsequence 7 ?c" "in_gain_subsequence 7 ?d" "in_gain_subsequence 7 ?a"
    by code_simp+
  have ts: "timestamp ?c \<le> timestamp ?d" "timestamp ?d \<le> timestamp ?a"
    by code_simp+
  have nb: "\<not> (reviver_id (reviver ?b) = 7 \<and> target_id (target ?b) \<noteq> 7 \<and> result ?b = ''success'')"
    by code_simp
  have tenth: "to_double (1 / 10) = Finite (3602879701896397 / 2 ^ 55)"
    using to_double_tenth by simp
  have eighth: "is_double (1 / 8)"
    using is_doubleI [of 1 "- 3"] by (simp add: power_int_minus)
  have ints: "\<bar>50 - 40\<bar> \<le> (2 ^ 46 :: int)"
    by simp
  note t = enrichRevives_skillGain [where rs = sample_revives and uid = 7 and a = 0 and b = 0
      and g = 0 and x = "1 / 10" and y = "3602879701896397 / 2 ^ 55" and m = 50 and n = 40
      and ?r1.0 = ?c and ?r2.0 = ?d and ?r3.0 = ?a, unfolded sub]
  note u = enrichRevives_skillGain [where rs = sample_revives and uid = 7 and a = 0 and b = 0
      and g = 0 and x = "1 / 8" and y = 0 and m = 40 and n = 20
      and ?r1.0 = ?c and ?r2.0 = ?d and ?r3.0 = ?a]
  have "\<bar>50 - 40\<bar> \<le> (2 ^ 46 :: int) \<longrightarrow>
      round2 (number_minus (of_int 50) (of_int 40)) = Finite (of_int (50 - 40))"
    using t by (elim conjE)
  with ints have r1: "round2 (number_minus (of_int 50) (of_int 40)) = Finite (of_int (50 - 40))"
    by blast
  then have r: "round2 (number_minus 50 40) = Finite 10"
    by simp
  have "\<bar>40 - 20\<bar> \<le> (2 ^ 46 :: int) \<longrightarrow>
      round2 (number_minus (of_int 40) (of_int 20)) = Finite (of_int (40 - 20))"
    using u by (elim conjE)
  then have r2: "round2 (number_minus 40 20) = Finite 20"
    by simp
  have g: "\<forall>k. Suc k < length [(2, ?c), (3, ?d), (0::nat, ?a)] \<longrightarrow>
      Gain (enrichRevives sample_revives 7 ! fst ([(2, ?c), (3, ?d), (0, ?a)] ! k)) =
        Some (if (case skill (reviver (snd ([(2, ?c), (3, ?d), (0::nat, ?a)] ! Suc k))) of
                       None \<Rightarrow> 0 | Some s \<Rightarrow> s) \<ge> 100
                 then Finite 0
                 else round2 (number_minus
                        (case skill (reviver (snd ([(2, ?c), (3, ?d), (0::nat, ?a)] ! k))) of
                           None \<Rightarrow> 0 | Some s \<Rightarrow> s)
                        (case skill (reviver (snd ([(2, ?c), (3, ?d), (0::nat, ?a)] ! Suc k))) of
                           None \<Rightarrow> 0 | Some s \<Rightarrow> s)))"
    using t by (elim conjE)
  have g0: "Gain (enrichRevives sample_revives 7 ! 2) = Some (Finite 10)"
    using g [rule_format, of 0] by (simp add: skr r)
  have g1: "Gain (enrichRevives sample_revives 7 ! 3) = Some (Finite 20)"
    using g [rule_format, of 1] by (simp add: skr r2)
  have "[(2, ?c), (3, ?d), (0::nat, ?a)] \<noteq> [] \<longrightarrow>
      Gain (enrichRevives sample_revives 7 ! fst (last [(2, ?c), (3, ?d), (0::nat, ?a)])) = None"
    using t by (elim conjE)
  then have g2: "Gain (enrichRevives sample_revives 7 ! 0) = None"
    by simp
  have "\<forall>i<length sample_revives.
         \<not> (reviver_id (reviver (sample_revives ! i)) = 7 \<and> target_id (target (sample_revives ! i)) \<noteq> 7
            \<and> result (sample_revives ! i) = ''success'')
         \<longrightarrow> Gain (enrichRevives sample_revives 7 ! i) = None"
    using t by (elim conjE)
  from this [rule_format, of 1] nb have g3: "Gain (enrichRevives sample_revives 7 ! 1) = None"
    by (simp add: len)
  have "in_gain_subsequence 7 ?c \<and> in_gain_subsequence 7 ?d \<and> in_gain_subsequence 7 ?a
        \<and> timestamp ?c \<le> timestamp ?d \<and> timestamp ?d \<le> timestamp ?a
        \<and> skill (reviver ?c) = Some 50 \<and> skill (reviver ?d) = Some 40
        \<and> skill (reviver ?a) = Some 20
        \<longrightarrow> map Gain (enrichRevives [?c, ?d, ?a] 7) = [Some (Finite 10), Some (Finite 20), None]"
    using t by (elim conjE)
  with mem ts skr have g4: "map Gain (enrichRevives [?c, ?d, ?a] 7)
      = [Some (Finite 10), Some (Finite 20), None]"
    by (simp only: simp_thms)
  have n: "to_double (1 / 10) = Finite (3602879701896397 / 2 ^ 55) \<longrightarrow>
      is_double (3602879701896397 / 2 ^ 55)
      \<and> (\<forall>z. is_double z \<longrightarrow> \<bar>1 / 10 - 3602879701896397 / 2 ^ 55\<bar> \<le> \<bar>1 / 10 - z\<bar>)"
    using t by (elim conjE)
  then have n1: "is_double (3602879701896397 / 2 ^ 55)"
    and n2: "\<bar>1 / 10 - 3602879701896397 / 2 ^ 55\<bar> \<le> \<bar>1 / 10 - 1 / (8::rat)\<bar>"
    using tenth eighth by blast+
  have "is_double (1 / 8) \<longrightarrow> to_double (1 / 8) = Finite (1 / 8)"
    using u by (elim conjE)
  with eighth have e8: "to_double (1 / 8) = Finite (1 / 8)"
    by blast
  from g0 g1 g2 g3 g4 tenth n1 eighth n2 e8 ints r1 show ?thesis
    by (simp only: simp_thms)
qed

subsection \<open>Enrichment on a store of objects\<close>

lemma raw_fields_simps [simp]:
  "raw_fields (RawObject r) = r"
  "raw_fields (EnrichedObject (enrich_basic r)) = r"
  "raw_fields (EnrichedObject (e\<lparr>Gain := g\<rparr>)) = raw_fields (EnrichedObject e)"
  unfolding raw_fields_def enrich_basic_def Let_def
  by (simp_all add: ReviveData.truncate_def)

lemma raw_fields_Enriched:
  "reviver (raw_fields (EnrichedObject e)) = reviver e"
  "target (raw_fields (EnrichedObject e)) = target e"
  "result (raw_fields (EnrichedObject e)) = result e"
  "timestamp (raw_fields (EnrichedObject e)) = timestamp e"
  "skill_or_0 (raw_fields (EnrichedObject e)) = skill_or_0 e"
  unfolding raw_fields_def skill_or_0_def by (simp_all add: ReviveData.truncate_def)

lemma map_enrich_eq:
  assumes "\<forall>a\<in>set refs. a < length store"
  shows "map_enrich refs store =
     ([length store..<length store + length refs],
      store @ map (\<lambda>a. EnrichedObject (enrich_basic (raw_fields (store ! a)))) refs)"
  using assms
proof (induction refs arbitrary: store)
  case Nil
  then show ?case by simp
next
  case (Cons a as)
  let ?c = "EnrichedObject (enrich_basic (raw_fields (store ! a)))"
  have v: "\<forall>b\<in>set as. b < length (store @ [?c])"
    using Cons.prems by auto
  have r: "map (\<lambda>b. EnrichedObject (enrich_basic (raw_fields ((store @ [?c]) ! b)))) as
      = map (\<lambda>b. EnrichedObject (enrich_basic (raw_fields (store ! b)))) as"
    using Cons.prems by (auto simp: nth_append)
  have u: "[length store..<length store + length (a # as)]
      = length store # [length (store @ [?c])..<length (store @ [?c]) + length as]"
    by (subst upt_conv_Cons) simp_all
  have ih: "map_enrich as (store @ [?c]) =
     ([length (store @ [?c])..<length (store @ [?c]) + length as],
      (store @ [?c]) @ map (\<lambda>b. EnrichedObject (enrich_basic (raw_fields ((store @ [?c]) ! b)))) as)"
    by (rule Cons.IH [OF v])
  show ?case
    unfolding map_enrich.simps Let_def ih r u by simp
qed

lemma insort_cmp_map:
  "insort_cmp cmp (g x) (map g xs) = map g (insort_cmp (\<lambda>a b. cmp (g a) (g b)) x xs)"
  by (induction xs) auto

lemma sort_cmp_map:
  "sort_cmp cmp (map g xs) = map g (sort_cmp (\<lambda>a b. cmp (g a) (g b)) xs)"
  by (induction xs) (simp_all add: sort_cmp_def insort_cmp_map)

lemma insort_cmp_cong:
  "\<forall>b\<in>set ys. cmp x b = cmp' x b \<Longrightarrow> insort_cmp cmp x ys = insort_cmp cmp' x ys"
  by (induction ys) auto

lemma set_sort_cmp_fold: "set (foldr (insort_cmp cmp) xs []) = set xs"
proof (induction xs)
  case Nil
  show ?case by simp
next
  case (Cons x xs)
  have "set (insort_cmp cmp x ys) = insert x (set ys)" for ys
    by (induction ys) auto
  with Cons show ?case by simp
qed

lemma sort_cmp_cong:
  "\<forall>a\<in>set xs. \<forall>b\<in>set xs. cmp a b = cmp' a b \<Longrightarrow> sort_cmp cmp xs = sort_cmp cmp' xs"
proof (induction xs)
  case Nil
  show ?case by (simp add: sort_cmp_def)
next
  case (Cons x xs)
  then have ih: "foldr (insort_cmp cmp) xs [] = foldr (insort_cmp cmp') xs []"
    by (simp add: sort_cmp_def)
  have "\<forall>b\<in>set (foldr (insort_cmp cmp') xs []). cmp x b = cmp' x b"
    using Cons.prems by (simp add: set_sort_cmp_fold)
  then show ?case
    by (simp add: sort_cmp_def ih insort_cmp_cong)
qed

lemma zip_upt_index:
  "length E = n \<Longrightarrow> zip E [0..<n] = map (\<lambda>i. (E ! i, i)) [0..<n]"
  by (rule nth_equalityI) simp_all

lemma zip_upt_shift:
  "zip [n0..<n0 + n] [0..<n] = map (\<lambda>i. (n0 + i, i)) [0..<n]"
  by (rule nth_equalityI) simp_all

lemma mySuccessfulRevives_refs_eq:
  assumes "length E = n"
  shows "mySuccessfulRevives_refs (store @ map EnrichedObject E) [length store..<length store + n] uid
     = map (\<lambda>(e, i). (length store + i, i)) (mySuccessfulRevives E uid)"
proof -
  let ?S = "store @ map EnrichedObject E"
  let ?n0 = "length store"
  let ?P = "\<lambda>r. reviver_id (reviver r) = uid \<and> target_id (target r) \<noteq> uid \<and> result r = ''success''"
  let ?PR = "\<lambda>i. ?P (raw_fields (?S ! (?n0 + i)))"
  let ?PE = "\<lambda>i. ?P (E ! i)"
  let ?CR = "\<lambda>a b. rat_of_int (timestamp (raw_fields (?S ! (?n0 + a))))
      - rat_of_int (timestamp (raw_fields (?S ! (?n0 + b))))"
  let ?CE = "\<lambda>a b. rat_of_int (timestamp (E ! a)) - rat_of_int (timestamp (E ! b))"
  have obj: "raw_fields (?S ! (?n0 + i)) = raw_fields (EnrichedObject (E ! i))" if "i < n" for i
    using that assms by (simp add: nth_append)
  have f: "filter ?PR [0..<n] = filter ?PE [0..<n]"
  proof (rule filter_cong [OF refl])
    fix i assume "i \<in> set [0..<n]"
    then have "i < n" by simp
    from obj [OF this] show "?PR i = ?PE i"
      by (simp only: raw_fields_Enriched)
  qed
  have c: "sort_cmp ?CR (filter ?PE [0..<n]) = sort_cmp ?CE (filter ?PE [0..<n])"
  proof (rule sort_cmp_cong, intro ballI)
    fix a b assume "a \<in> set (filter ?PE [0..<n])" "b \<in> set (filter ?PE [0..<n])"
    then have "a < n" "b < n" by simp_all
    from obj [OF this(1)] obj [OF this(2)] show "?CR a b = ?CE a b"
      by (simp only: raw_fields_Enriched)
  qed
  have "mySuccessfulRevives_refs ?S [?n0..<?n0 + n] uid
      = sort_cmp (\<lambda>a b. rat_of_int (timestamp (raw_fields (?S ! fst a)))
                     - rat_of_int (timestamp (raw_fields (?S ! fst b))))
          (filter (\<lambda>(revive, index). ?P (raw_fields (?S ! revive)))
             (map (\<lambda>i. (?n0 + i, i)) [0..<n]))"
    unfolding mySuccessfulRevives_refs_def by (simp only: length_upt add_diff_cancel_left' zip_upt_shift)
  also have "\<dots> = map (\<lambda>i. (?n0 + i, i)) (sort_cmp ?CR (filter ?PR [0..<n]))"
    by (simp add: filter_map sort_cmp_map comp_def)
  also have "\<dots> = map (\<lambda>i. (?n0 + i, i)) (sort_cmp ?CE (filter ?PE [0..<n]))"
    by (simp only: f c)
  finally have l: "mySuccessfulRevives_refs ?S [?n0..<?n0 + n] uid
      = map (\<lambda>i. (?n0 + i, i)) (sort_cmp ?CE (filter ?PE [0..<n]))" .
  have "mySuccessfulRevives E uid
      = sort_cmp (\<lambda>a b. rat_of_int (timestamp (fst a)) - rat_of_int (timestamp (fst b)))
          (filter (\<lambda>(revive, index). ?P revive) (map (\<lambda>i. (E ! i, i)) [0..<n]))"
    unfolding mySuccessfulRevives_def by (simp only: assms zip_upt_index [OF assms])
  also have "\<dots> = map (\<lambda>i. (E ! i, i)) (sort_cmp ?CE (filter ?PE [0..<n]))"
    by (simp add: filter_map sort_cmp_map comp_def)
  finally have r: "mySuccessfulRevives E uid = map (\<lambda>i. (E ! i, i)) (sort_cmp ?CE (filter ?PE [0..<n]))" .
  show ?thesis
    unfolding l r by simp
qed

lemma mySuccessfulRevives_elem:
  "p \<in> set (mySuccessfulRevives E uid) \<Longrightarrow> snd p < length E \<and> fst p = E ! snd p"
  unfolding mySuccessfulRevives_def
  by (auto simp: set_sort_cmp_fold [folded sort_cmp_def] in_set_zip)

lemma fold_gain_step_raw:
  "j < length E \<Longrightarrow> skill_or_0 (fold (gain_step ms) ks E ! j) = skill_or_0 (E ! j)"
proof (induction ks arbitrary: E)
  case Nil
  show ?case by simp
next
  case (Cons k ks)
  have "skill_or_0 (gain_step ms k E ! j) = skill_or_0 (E ! j)"
    using Cons.prems
    by (cases "snd (ms ! k) = j") (simp_all add: gain_step_eq skill_or_0_def)
  moreover have "j < length (gain_step ms k E)"
    using Cons.prems by (simp add: gain_step_eq)
  ultimately show ?case
    using Cons.IH [of "gain_step ms k E"] by simp
qed


lemma gain_step_refs_eq:
  assumes "length E = n" "k + 1 < length ms"
    and "\<forall>p\<in>set ms. snd p < n \<and> skill_or_0 (E ! snd p) = skill_or_0 (fst p)"
  shows "gain_step_refs (map (\<lambda>(e, i). (length store + i, i)) ms) [length store..<length store + n] k
           (store @ map EnrichedObject E)
         = store @ map EnrichedObject (gain_step ms k E)"
proof -
  define n0 where "n0 = length store"
  define S where "S = store @ map EnrichedObject E"
  define msr where "msr = map (\<lambda>(e, i). (n0 + i, i)) ms"
  define enriched where "enriched = [n0..<n0 + n]"
  have k: "k < length ms" "Suc k < length ms"
    using assms(2) by simp_all
  have mem: "ms ! k \<in> set ms" "ms ! Suc k \<in> set ms"
    using k by simp_all
  have idx: "snd (ms ! k) < n" "snd (ms ! Suc k) < n"
    using mem assms(3) by blast+
  have sk: "skill_or_0 (E ! snd (ms ! k)) = skill_or_0 (fst (ms ! k))"
    "skill_or_0 (E ! snd (ms ! Suc k)) = skill_or_0 (fst (ms ! Suc k))"
    using mem assms(3) by blast+
  have r: "fst (msr ! k) = n0 + snd (ms ! k)" "fst (msr ! (k + 1)) = n0 + snd (ms ! Suc k)"
    "snd (msr ! k) = snd (ms ! k)"
    using k by (simp_all add: msr_def split_beta)
  have obj: "S ! (n0 + i) = EnrichedObject (E ! i)" if "i < n" for i
    using that assms(1) by (simp add: S_def n0_def nth_append)
  have w: "enriched ! snd (ms ! k) = n0 + snd (ms ! k)"
    using idx(1) by (simp add: enriched_def)
  have upd: "S[n0 + snd (ms ! k) := EnrichedObject e] = store @ map EnrichedObject (E[snd (ms ! k) := e])" for e
    by (simp add: S_def n0_def list_update_append map_update)
  have s1: "skill_or_0 (raw_fields (S ! (n0 + snd (ms ! k)))) = skill_or_0 (fst (ms ! k))"
    unfolding obj [OF idx(1)] raw_fields_Enriched sk ..
  have s2: "skill_or_0 (raw_fields (S ! (n0 + snd (ms ! Suc k)))) = skill_or_0 (fst (ms ! (k + 1)))"
    unfolding obj [OF idx(2)] raw_fields_Enriched sk by simp
  have a: "assign_Gain v (S ! (n0 + snd (ms ! k))) = EnrichedObject ((E ! snd (ms ! k))\<lparr>Gain := v\<rparr>)" for v
    unfolding obj [OF idx(1)] by (simp add: assign_Gain_def)
  have "gain_step_refs msr enriched k S = store @ map EnrichedObject (gain_step ms k E)"
    unfolding gain_step_refs_def gain_step_def Let_def r w s1 s2 a upd by simp
  then show ?thesis
    unfolding msr_def enriched_def S_def n0_def .
qed

lemma fold_gain_step_refs_eq:
  assumes "length E = n" "k < length (mySuccessfulRevives E uid)"
  shows "fold (gain_step_refs (map (\<lambda>(e, i). (length store + i, i)) (mySuccessfulRevives E uid))
            [length store..<length store + n]) [0..<k] (store @ map EnrichedObject E)
         = store @ map EnrichedObject (fold (gain_step (mySuccessfulRevives E uid)) [0..<k] E)"
  using assms(2)
proof (induction k)
  case 0
  show ?case by simp
next
  case (Suc k)
  let ?ms = "mySuccessfulRevives E uid"
  let ?Ek = "fold (gain_step ?ms) [0..<k] E"
  have len: "length ?Ek = n"
    using assms(1) by simp
  have inv: "\<forall>p\<in>set ?ms. snd p < n \<and> skill_or_0 (?Ek ! snd p) = skill_or_0 (fst p)"
  proof
    fix p assume "p \<in> set ?ms"
    then have e: "snd p < length E \<and> fst p = E ! snd p"
      by (rule mySuccessfulRevives_elem)
    then have "skill_or_0 (?Ek ! snd p) = skill_or_0 (E ! snd p)"
      by (simp add: fold_gain_step_raw)
    with e assms(1) show "snd p < n \<and> skill_or_0 (?Ek ! snd p) = skill_or_0 (fst p)"
      by simp
  qed
  have ih: "fold (gain_step_refs (map (\<lambda>(e, i). (length store + i, i)) ?ms)
            [length store..<length store + n]) [0..<k] (store @ map EnrichedObject E)
         = store @ map EnrichedObject ?Ek"
    using Suc by simp
  have st: "gain_step_refs (map (\<lambda>(e, i). (length store + i, i)) ?ms) [length store..<length store + n] k
           (store @ map EnrichedObject ?Ek)
         = store @ map EnrichedObject (gain_step ?ms k ?Ek)"
    using len _ inv by (rule gain_step_refs_eq) (use Suc.prems in simp)
  show ?case
    by (simp only: upt_Suc_append [OF le0] fold_append comp_apply fold_simps ih st)
qed

lemma enrichRevives_store_eq:
  assumes "\<forall>a\<in>set refs. a < length store"
  shows "enrichRevives_store refs uid store =
     ([length store..<length store + length refs],
      store @ map EnrichedObject (enrichRevives (map (\<lambda>a. raw_fields (store ! a)) refs) uid))"
proof (cases "refs = []")
  case True
  then show ?thesis
    by (simp add: enrichRevives_store_def enrichRevives_def)
next
  case False
  let ?rs = "map (\<lambda>a. raw_fields (store ! a)) refs"
  let ?E = "map enrich_basic ?rs"
  let ?ms = "mySuccessfulRevives ?E uid"
  have m: "map_enrich refs store = ([length store..<length store + length refs], store @ map EnrichedObject ?E)"
    using map_enrich_eq [OF assms] by (simp add: comp_def)
  have len: "length ?E = length refs"
    by simp
  have msr: "mySuccessfulRevives_refs (store @ map EnrichedObject ?E)
       [length store..<length store + length refs] uid
     = map (\<lambda>(e, i). (length store + i, i)) ?ms"
    using len by (rule mySuccessfulRevives_refs_eq)
  have l: "length (map (\<lambda>(e, i). (length store + i, i)) ?ms) = length ?ms"
    by simp
  have f: "fold (gain_step_refs (map (\<lambda>(e, i). (length store + i, i)) ?ms)
            [length store..<length store + length refs]) [0..<length ?ms - 1] (store @ map EnrichedObject ?E)
         = store @ map EnrichedObject (fold (gain_step ?ms) [0..<length ?ms - 1] ?E)"
  proof (cases "?ms = []")
    case True
    then show ?thesis by simp
  next
    case False
    then have "length ?ms - 1 < length ?ms" by simp
    with len show ?thesis by (rule fold_gain_step_refs_eq)
  qed
  have p: "enrichRevives ?rs uid = fold (gain_step ?ms) [0..<length ?ms - 1] ?E"
    using False by (simp add: enrichRevives_def Let_def)
  show ?thesis
    unfolding enrichRevives_store_def Let_def m prod.case msr l f p
    using False by simp
qed

lemma enrichRevives_raw_fields:
  "length (enrichRevives rs uid) = length rs
   \<and> map ReviveData.truncate (enrichRevives rs uid) = rs
   \<and> map (\<lambda>e. e\<lparr>Gain := None\<rparr>) (enrichRevives rs uid) = map enrich_basic rs"
proof (intro conjI)
  show "length (enrichRevives rs uid) = length rs"
    by simp
  have nth: "\<exists>g. enrichRevives rs uid ! i = (enrich_basic (rs ! i))\<lparr>Gain := g\<rparr>"
    if "i < length rs" for i
  proof (cases "\<forall>k. Suc k < length (gain_subsequence rs uid) \<longrightarrow> fst (gain_subsequence rs uid ! k) \<noteq> i")
    case True
    with that have "enrichRevives rs uid ! i = enrich_basic (rs ! i)"
      by (rule enrichRevives_nth_other)
    then have "enrichRevives rs uid ! i = (enrich_basic (rs ! i))\<lparr>Gain := None\<rparr>"
      by simp
    then show ?thesis ..
  next
    case False
    then obtain k where k: "Suc k < length (gain_subsequence rs uid)"
      "fst (gain_subsequence rs uid ! k) = i" by blast
    then have "gain_subsequence rs uid ! k \<in> set (gain_subsequence rs uid)"
      by simp
    then have "snd (gain_subsequence rs uid ! k) = rs ! i"
      using k(2) by (auto simp: gain_subsequence_set)
    with enrichRevives_nth_gain [OF k(1)] k(2) show ?thesis
      by auto
  qed
  show "map ReviveData.truncate (enrichRevives rs uid) = rs"
  proof (rule nth_equalityI)
    show "length (map ReviveData.truncate (enrichRevives rs uid)) = length rs"
      by simp
    fix i assume "i < length (map ReviveData.truncate (enrichRevives rs uid))"
    then have i: "i < length rs" by simp
    from nth [OF i] obtain g where "enrichRevives rs uid ! i = (enrich_basic (rs ! i))\<lparr>Gain := g\<rparr>" ..
    with i show "map ReviveData.truncate (enrichRevives rs uid) ! i = rs ! i"
      by (simp add: ReviveData.truncate_def)
  qed
  show "map (\<lambda>e. e\<lparr>Gain := None\<rparr>) (enrichRevives rs uid) = map enrich_basic rs"
  proof (rule nth_equalityI)
    show "length (map (\<lambda>e. e\<lparr>Gain := None\<rparr>) (enrichRevives rs uid)) = length (map enrich_basic rs)"
      by simp
    fix i assume "i < length (map (\<lambda>e. e\<lparr>Gain := None\<rparr>) (enrichRevives rs uid))"
    then have i: "i < length rs" by simp
    from nth [OF i] obtain g where "enrichRevives rs uid ! i = (enrich_basic (rs ! i))\<lparr>Gain := g\<rparr>" ..
    with i show "map (\<lambda>e. e\<lparr>Gain := None\<rparr>) (enrichRevives rs uid) ! i = map enrich_basic rs ! i"
      by (simp add: enrich_basic_def Let_def)
  qed
qed


text \<open>
  Claim C9. \<open>enrichRevives\<close> modifies no object that exists when it is called, so none of
  the input records: the objects of its result are new ones. The output has the length and
  the order of the input, each output record has the raw fields of the input record at its
  position, and apart from the gain it is the first pass's record: only derived fields are
  added.
\<close>

theorem enrichRevives_frame:
  "length (enrichRevives rs uid) = length rs
   \<and> map ReviveData.truncate (enrichRevives rs uid) = rs
   \<and> map (\<lambda>e. e\<lparr>Gain := None\<rparr>) (enrichRevives rs uid) = map enrich_basic rs
   \<and> ((\<forall>a\<in>set refs. a < length store) \<longrightarrow>
        take (length store) (snd (enrichRevives_store refs uid store)) = store
        \<and> (\<forall>a\<in>set refs. snd (enrichRevives_store refs uid store) ! a = store ! a)
        \<and> (\<forall>a\<in>set (fst (enrichRevives_store refs uid store)). length store \<le> a)
        \<and> map (\<lambda>a. snd (enrichRevives_store refs uid store) ! a)
              (fst (enrichRevives_store refs uid store))
            = map EnrichedObject (enrichRevives (map (\<lambda>a. raw_fields (store ! a)) refs) uid))"
proof (intro conjI impI)
  show "length (enrichRevives rs uid) = length rs"
    by simp
  show "map ReviveData.truncate (enrichRevives rs uid) = rs"
    using enrichRevives_raw_fields [of rs uid] by blast
  show "map (\<lambda>e. e\<lparr>Gain := None\<rparr>) (enrichRevives rs uid) = map enrich_basic rs"
    using enrichRevives_raw_fields [of rs uid] by blast
next
  assume v: "\<forall>a\<in>set refs. a < length store"
  let ?out = "enrichRevives (map (\<lambda>a. raw_fields (store ! a)) refs) uid"
  note e = enrichRevives_store_eq [OF v, of uid]
  have len: "length ?out = length refs"
    by simp
  show "take (length store) (snd (enrichRevives_store refs uid store)) = store"
    unfolding e by simp
  show "\<forall>a\<in>set refs. snd (enrichRevives_store refs uid store) ! a = store ! a"
    unfolding e using v by (simp add: nth_append)
  show "\<forall>a\<in>set (fst (enrichRevives_store refs uid store)). length store \<le> a"
    unfolding e by simp
  show "map (\<lambda>a. snd (enrichRevives_store refs uid store) ! a)
              (fst (enrichRevives_store refs uid store))
            = map EnrichedObject ?out"
    unfolding e fst_conv snd_conv
    by (rule nth_equalityI) (simp_all add: len nth_append)
qed

theorem enrichRevives_frame_witness:
  "take 4 (snd (enrichRevives_store [0, 1, 2, 3] 7 (map RawObject sample_revives)))
     = map RawObject sample_revives
   \<and> map (\<lambda>a. snd (enrichRevives_store [0, 1, 2, 3] 7 (map RawObject sample_revives)) ! a)
        (fst (enrichRevives_store [0, 1, 2, 3] 7 (map RawObject sample_revives)))
     = map EnrichedObject (enrichRevives sample_revives 7)"
proof -
  have l: "length (map RawObject sample_revives) = 4"
    by code_simp
  then have v: "\<forall>a\<in>set [0, 1, 2, 3]. a < length (map RawObject sample_revives)"
    by simp
  have r: "map (\<lambda>a. raw_fields (map RawObject sample_revives ! a)) [0, 1, 2, 3] = sample_revives"
    by code_simp
  from enrichRevives_frame [of sample_revives 7 "[0, 1, 2, 3]" "map RawObject sample_revives"] v
  show ?thesis
    unfolding l r by blast
qed

subsection \<open>The record store\<close>

lemma set_store_put:
  "set (map revive_id (store_put r xs)) = insert (revive_id r) (set (map revive_id xs))"
  by (induction xs) auto

lemma store_put_ok: "store_ok xs \<Longrightarrow> store_ok (store_put r xs)"
  unfolding store_ok_def
  by (induction xs) (auto simp: set_store_put [simplified])

lemma fold_store_put_ok: "store_ok xs \<Longrightarrow> store_ok (fold store_put page xs)"
  by (induction page arbitrary: xs) (simp_all add: store_put_ok)

lemma store_ok_distinct: "store_ok xs \<Longrightarrow> distinct (map revive_id xs)"
  unfolding store_ok_def by (simp add: strict_sorted_iff)

lemma set_fold_store_put:
  "set (map revive_id (fold store_put page xs)) = set (map revive_id xs) \<union> set (map revive_id page)"
  by (induction page arbitrary: xs) (auto simp: set_store_put [simplified])

lemma lookup_store_put:
  "lookup_id i (store_put r xs) = (if revive_id r = i then Some r else lookup_id i xs)"
  unfolding lookup_id_def by (induction xs) auto

lemma find_app:
  "find P (xs @ ys) = (case find P xs of None \<Rightarrow> find P ys | Some x \<Rightarrow> Some x)"
  by (induction xs) simp_all

lemma lookup_fold_store_put:
  "lookup_id i (fold store_put page xs) =
     (case lookup_id i (rev page) of Some r \<Rightarrow> Some r | None \<Rightarrow> lookup_id i xs)"
proof (induction page arbitrary: xs)
  case Nil
  then show ?case by (simp add: lookup_id_def)
next
  case (Cons p ps)
  show ?case
    by (simp add: Cons.IH lookup_store_put)
      (simp add: lookup_id_def find_app lookup_store_put [unfolded lookup_id_def]
        split: option.split)
qed

lemma initDB_cases:
  "initDB db = Inl VersionError \<and> DB_VERSION < version db
   \<or> initDB db = Inr ((onupgradeneeded db)\<lparr>version := DB_VERSION\<rparr>) \<and> version db < DB_VERSION
   \<or> initDB db = Inr db \<and> version db = DB_VERSION"
  by (auto simp: initDB_def)

lemma initDB_version: "initDB db = Inr db1 \<Longrightarrow> version db1 = DB_VERSION"
  using initDB_cases [of db] by auto

lemma initDB_idem: "initDB db = Inr db1 \<Longrightarrow> initDB db1 = Inr db1"
  by (drule initDB_version) (simp add: initDB_def)

lemma onupgradeneeded_stores:
  "settings_store (onupgradeneeded db) =
     (case settings_store db of None \<Rightarrow> Some empty_settings | Some c \<Rightarrow> Some c)"
  "user_revives_store (onupgradeneeded db) =
     (case user_revives_store db of None \<Rightarrow> Some [] | Some c \<Rightarrow> Some c)"
  "faction_revives_store (onupgradeneeded db) =
     (case faction_revives_store db of None \<Rightarrow> Some [] | Some c \<Rightarrow> Some c)"
  "legacy_revives_store (onupgradeneeded db) = None"
  "payment_status_store (onupgradeneeded db) =
     (case payment_status_store db of None \<Rightarrow> Some [] | Some c \<Rightarrow> Some c)"
  "version (onupgradeneeded db) = version db"
  unfolding onupgradeneeded_def Let_def by (simp_all split: option.split)

lemma initDB_stores_ok: "stores_ok db \<Longrightarrow> initDB db = Inr db1 \<Longrightarrow> stores_ok db1"
  using initDB_cases [of db]
  by (auto simp: stores_ok_def onupgradeneeded_stores store_ok_def split: option.splits)

lemma revives_store_set:
  "revives_store md (set_revives_store md' c db) =
     (if md = md' then Some c else revives_store md db)"
  by (cases md; cases md') (simp_all add: revives_store_def set_revives_store_def)

lemma version_set_revives_store [simp]: "version (set_revives_store md c db) = version db"
  by (simp add: set_revives_store_def)

lemma stores_ok_iff: "stores_ok db \<longleftrightarrow>
    (\<forall>md c. revives_store md db = Some c \<longrightarrow> store_ok c)"
proof -
  have "(\<forall>md. P md) \<longleftrightarrow> P UserMode \<and> P FactionMode" for P
    by (metis api_mode.exhaust)
  then show ?thesis
    by (auto simp: stores_ok_def revives_store_def split: option.splits)
qed

lemma saveRevives_result:
  assumes "saveRevives page md db = Inr db'"
  obtains db1 c where "initDB db = Inr db1" "revives_store md db1 = Some c"
    "db' = set_revives_store md (fold store_put page c) db1"
  using assms unfolding saveRevives_def by (auto split: sum.splits option.splits)

lemma getAllRevives_after_init:
  "initDB db = Inr db1 \<Longrightarrow> getAllRevives md db =
     (case revives_store md db1 of None \<Rightarrow> Inl NotFoundError | Some c \<Rightarrow> Inr (db1, c))"
  by (simp add: getAllRevives_def)

lemma cached_revives_init:
  "initDB db = Inr db1 \<Longrightarrow> cached_revives md db =
     (case revives_store md db1 of None \<Rightarrow> [] | Some c \<Rightarrow> c)"
  by (simp add: cached_revives_def getAllRevives_after_init split: option.split)

lemma saveRevives_step:
  assumes "saveRevives page md db = Inr db'"
  shows "initDB db' = Inr db'"
    and "getAllRevives md db' = Inr (db', cached_revives md db')"
    and "cached_revives md db' = fold store_put page (cached_revives md db)"
    and "md' \<noteq> md \<Longrightarrow> cached_revives md' db' = cached_revives md' db"
    and "stores_ok db \<Longrightarrow> stores_ok db'"
proof -
  from assms obtain db1 c where r: "initDB db = Inr db1" "revives_store md db1 = Some c"
    "db' = set_revives_store md (fold store_put page c) db1"
    by (rule saveRevives_result)
  have v: "version db' = DB_VERSION"
    using r(1) by (simp add: r(3) initDB_version)
  then show i: "initDB db' = Inr db'"
    by (simp add: initDB_def)
  have s: "revives_store md db' = Some (fold store_put page c)"
    by (simp add: r(3) revives_store_set)
  show "getAllRevives md db' = Inr (db', cached_revives md db')"
    using i s by (simp add: cached_revives_init getAllRevives_after_init)
  show "cached_revives md db' = fold store_put page (cached_revives md db)"
    using i s r(1,2) by (simp add: cached_revives_init)
  show "cached_revives md' db' = cached_revives md' db" if "md' \<noteq> md"
    using that i r(1) by (simp add: cached_revives_init r(3) revives_store_set)
  show "stores_ok db'" if "stores_ok db"
  proof -
    have ok1: "stores_ok db1"
      using that r(1) by (rule initDB_stores_ok)
    then have "store_ok c"
      using r(2) by (simp add: stores_ok_iff)
    then have "store_ok (fold store_put page c)"
      by (rule fold_store_put_ok)
    with ok1 show ?thesis
      by (simp add: stores_ok_iff r(3) revives_store_set)
  qed
qed

lemma stores_ok_cached: "stores_ok db \<Longrightarrow> store_ok (cached_revives md db)"
proof (cases "initDB db")
  case (Inl e)
  then show ?thesis by (simp add: cached_revives_def getAllRevives_def store_ok_def)
next
  case (Inr db1)
  assume "stores_ok db"
  then have "stores_ok db1" using Inr by (rule initDB_stores_ok)
  then show ?thesis
    using Inr by (auto simp: cached_revives_init stores_ok_iff store_ok_def split: option.split)
qed

lemma db_ready_saveRevives:
  assumes "db_ready db"
  shows "\<exists>db'. saveRevives page md db = Inr db' \<and> db_ready db'"
proof -
  from assms obtain db1 where i: "initDB db = Inr db1"
    and s: "user_revives_store db1 \<noteq> None" "faction_revives_store db1 \<noteq> None"
    unfolding db_ready_def initDB_def
    by (auto simp: onupgradeneeded_stores split: option.splits)
  then obtain c where c: "revives_store md db1 = Some c"
    by (cases md) (auto simp: revives_store_def)
  have v: "version db1 = DB_VERSION"
    using i by (rule initDB_version)
  let ?db' = "set_revives_store md (fold store_put page c) db1"
  have "saveRevives page md db = Inr ?db'"
    by (simp add: saveRevives_def i c)
  moreover have "db_ready ?db'"
    using s v by (cases md) (simp_all add: db_ready_def set_revives_store_def)
  ultimately show ?thesis by blast
qed

lemma pages_of_Cons:
  "pages_of md ((page, m) # rest) =
     (if m = md then page @ pages_of md rest else pages_of md rest)"
  by (simp add: pages_of_def)

lemma merge_pages_fold:
  assumes "db_ready db"
  shows "\<exists>db'. merge_pages ops db = Inr db' \<and> db_ready db'
     \<and> (stores_ok db \<longrightarrow> stores_ok db')
     \<and> (\<forall>md. cached_revives md db' = fold store_put (pages_of md ops) (cached_revives md db))"
  using assms
proof (induction ops arbitrary: db)
  case Nil
  then show ?case by (simp add: pages_of_def)
next
  case (Cons op ops)
  obtain page m where op: "op = (page, m)" by (cases op)
  from db_ready_saveRevives [OF Cons.prems] obtain db1
    where s: "saveRevives page m db = Inr db1" and r: "db_ready db1" by blast
  from Cons.IH [OF r] obtain db' where m: "merge_pages ops db1 = Inr db'" "db_ready db'"
    "stores_ok db1 \<longrightarrow> stores_ok db'"
    "\<forall>md. cached_revives md db' = fold store_put (pages_of md ops) (cached_revives md db1)"
    by blast
  have c: "cached_revives md db' = fold store_put (pages_of md (op # ops)) (cached_revives md db)"
    for md
  proof (cases "md = m")
    case True
    then show ?thesis
      using m(4) saveRevives_step(3) [OF s] by (simp add: op pages_of_Cons)
  next
    case False
    then show ?thesis
      using m(4) saveRevives_step(4) [OF s, of md] by (simp add: op pages_of_Cons)
  qed
  have "merge_pages (op # ops) db = Inr db'"
    by (simp add: op s m(1))
  moreover have "stores_ok db \<longrightarrow> stores_ok db'"
    using m(3) saveRevives_step(5) [OF s] by blast
  ultimately show ?case
    using m(2) c by blast
qed

lemma new_database_facts:
  "db_ready new_database" "stores_ok new_database" "cached_revives md new_database = []"
  by (simp_all add: db_ready_def stores_ok_def new_database_def DB_VERSION_def cached_revives_def
      getAllRevives_def initDB_def onupgradeneeded_def revives_store_def)

text \<open>
  Claim C7. The ids of the records of a revive store are unique, and every merge keeps them
  so: saving a page into a store upserts by id, the last record written for an id being the
  one kept, and the store afterwards holds the ids it held and those of the page, each once.
  After any sequence of merges into the new database, \<open>getAllRevives\<close> returns one record
  for each distinct id of the pages of its mode, so its length is the number of those ids.
\<close>

theorem saveRevives_unique_ids:
  "(stores_ok db \<and> saveRevives page md db = Inr db' \<longrightarrow>
      stores_ok db'
      \<and> getAllRevives md db' = Inr (db', cached_revives md db')
      \<and> distinct (map revive_id (cached_revives md db'))
      \<and> set (map revive_id (cached_revives md db')) =
          set (map revive_id (cached_revives md db)) \<union> set (map revive_id page)
      \<and> (\<forall>i. lookup_id i (cached_revives md db') =
            (case lookup_id i (rev page) of
               Some r \<Rightarrow> Some r
             | None \<Rightarrow> lookup_id i (cached_revives md db))))
   \<and> (\<exists>db'. merge_pages ops new_database = Inr db'
        \<and> stores_ok db'
        \<and> distinct (map revive_id (cached_revives md db'))
        \<and> set (map revive_id (cached_revives md db')) = set (map revive_id (pages_of md ops))
        \<and> length (cached_revives md db') = card (set (map revive_id (pages_of md ops)))
        \<and> (\<forall>i. lookup_id i (cached_revives md db') = lookup_id i (rev (pages_of md ops))))"
proof (intro conjI impI)
  assume a: "stores_ok db \<and> saveRevives page md db = Inr db'"
  then have ok: "stores_ok db" and s: "saveRevives page md db = Inr db'"
    by simp_all
  show ok': "stores_ok db'"
    using s ok by (rule saveRevives_step(5))
  show "getAllRevives md db' = Inr (db', cached_revives md db')"
    using s by (rule saveRevives_step(2))
  show "distinct (map revive_id (cached_revives md db'))"
    using ok' by (intro store_ok_distinct stores_ok_cached)
  show "set (map revive_id (cached_revives md db')) =
          set (map revive_id (cached_revives md db)) \<union> set (map revive_id page)"
    unfolding saveRevives_step(3) [OF s] by (rule set_fold_store_put)
  show "\<forall>i. lookup_id i (cached_revives md db') =
            (case lookup_id i (rev page) of
               Some r \<Rightarrow> Some r
             | None \<Rightarrow> lookup_id i (cached_revives md db))"
    unfolding saveRevives_step(3) [OF s] by (simp add: lookup_fold_store_put)
next
  from merge_pages_fold [OF new_database_facts(1), of ops] obtain db'
    where m: "merge_pages ops new_database = Inr db'" "stores_ok db'"
      "\<forall>md. cached_revives md db' = fold store_put (pages_of md ops) []"
    by (auto simp: new_database_facts)
  have c: "cached_revives md db' = fold store_put (pages_of md ops) []"
    using m(3) by simp
  have d: "distinct (map revive_id (cached_revives md db'))"
    using m(2) by (intro store_ok_distinct stores_ok_cached)
  have st: "set (map revive_id (cached_revives md db')) = set (map revive_id (pages_of md ops))"
    unfolding c set_fold_store_put by simp
  have len: "length (cached_revives md db') = card (set (map revive_id (pages_of md ops)))"
    using distinct_card [OF d] st by simp
  have lk: "\<forall>i. lookup_id i (cached_revives md db') = lookup_id i (rev (pages_of md ops))"
  proof
    fix i
    have "lookup_id i [] = None"
      by (simp add: lookup_id_def)
    then show "lookup_id i (cached_revives md db') = lookup_id i (rev (pages_of md ops))"
      unfolding c lookup_fold_store_put by (simp split: option.split)
  qed
  from m(1,2) d st len lk
  show "\<exists>db'. merge_pages ops new_database = Inr db'
        \<and> stores_ok db'
        \<and> distinct (map revive_id (cached_revives md db'))
        \<and> set (map revive_id (cached_revives md db')) = set (map revive_id (pages_of md ops))
        \<and> length (cached_revives md db') = card (set (map revive_id (pages_of md ops)))
        \<and> (\<forall>i. lookup_id i (cached_revives md db') = lookup_id i (rev (pages_of md ops)))"
    by blast
qed

theorem saveRevives_unique_ids_witness:
  "stores_ok sample_db
   \<and> saveRevives overlap_page UserMode sample_db = Inr merged_db
   \<and> map revive_id (cached_revives UserMode sample_db) = [1, 2, 3, 4]
   \<and> map revive_id overlap_page = [4, 5]
   \<and> distinct (map revive_id (cached_revives UserMode merged_db))
   \<and> set (map revive_id (cached_revives UserMode merged_db)) = {1, 2, 3, 4, 5}
   \<and> lookup_id 4 (cached_revives UserMode merged_db) = Some (overlap_page ! 0)"
proof -
  have ok: "stores_ok sample_db"
    by code_simp
  have s: "saveRevives overlap_page UserMode sample_db = Inr merged_db"
    by code_simp
  have ids: "map revive_id (cached_revives UserMode sample_db) = [1, 2, 3, 4]"
    "map revive_id overlap_page = [4, 5]"
    by code_simp+
  have l: "lookup_id 4 (rev overlap_page) = Some (overlap_page ! 0)"
    by code_simp
  note t = conjunct1 [OF saveRevives_unique_ids [of sample_db overlap_page UserMode merged_db], rule_format, OF conjI [OF ok s]]
  from t have d: "distinct (map revive_id (cached_revives UserMode merged_db))"
    by simp
  from t have "set (map revive_id (cached_revives UserMode merged_db)) =
      set (map revive_id (cached_revives UserMode sample_db)) \<union> set (map revive_id overlap_page)"
    by simp
  then have st: "set (map revive_id (cached_revives UserMode merged_db)) = {1, 2, 3, 4, 5}"
    unfolding ids by auto
  from t have "lookup_id 4 (cached_revives UserMode merged_db) =
      (case lookup_id 4 (rev overlap_page) of Some r \<Rightarrow> Some r
       | None \<Rightarrow> lookup_id 4 (cached_revives UserMode sample_db))"
    by simp
  then have lk: "lookup_id 4 (cached_revives UserMode merged_db) = Some (overlap_page ! 0)"
    by (simp add: l)
  from ok s ids d st lk show ?thesis
    by simp
qed

text \<open>
  Claim C3, as amended. A schema upgrade deletes the store \<open>revives\<close> of the earlier schema
  together with its records; it creates each of the other stores empty when it is missing
  and leaves it as it is otherwise, so no record of the deleted store is carried over.
\<close>

theorem initDB_upgrade_deletes_legacy_store:
  assumes "version db < DB_VERSION"
  shows "\<exists>db'. initDB db = Inr db'
    \<and> version db' = DB_VERSION
    \<and> legacy_revives_store db' = None
    \<and> user_revives_store db' = (case user_revives_store db of None \<Rightarrow> Some [] | Some c \<Rightarrow> Some c)
    \<and> faction_revives_store db' =
        (case faction_revives_store db of None \<Rightarrow> Some [] | Some c \<Rightarrow> Some c)
    \<and> settings_store db' =
        (case settings_store db of None \<Rightarrow> Some empty_settings | Some c \<Rightarrow> Some c)
    \<and> payment_status_store db' =
        (case payment_status_store db of None \<Rightarrow> Some [] | Some c \<Rightarrow> Some c)"
  using assms by (simp add: initDB_def onupgradeneeded_stores)

theorem initDB_upgrade_deletes_legacy_store_witness:
  "version (legacy_database sample_revives) < DB_VERSION
   \<and> (\<exists>db'. initDB (legacy_database sample_revives) = Inr db'
        \<and> legacy_revives_store db' = None
        \<and> user_revives_store db' = Some []
        \<and> faction_revives_store db' = Some [])"
proof -
  have v: "version (legacy_database sample_revives) < DB_VERSION"
    by (simp add: legacy_database_def DB_VERSION_def)
  have s: "user_revives_store (legacy_database sample_revives) = None"
    "faction_revives_store (legacy_database sample_revives) = None"
    by (simp_all add: legacy_database_def)
  from initDB_upgrade_deletes_legacy_store [OF v] v s show ?thesis
    by auto
qed

theorem initDB_drops_legacy_records:
  "legacy_revives_store (legacy_database sample_revives) = Some sample_revives
   \<and> length sample_revives = 4
   \<and> initDB (legacy_database sample_revives) =
       Inr \<lparr>version = 3, settings_store = Some empty_settings, user_revives_store = Some [],
            faction_revives_store = Some [], legacy_revives_store = None,
            payment_status_store = Some []\<rparr>
   \<and> cached_revives UserMode (legacy_database sample_revives) = []
   \<and> cached_revives FactionMode (legacy_database sample_revives) = []"
  by (simp add: legacy_database_def initDB_def onupgradeneeded_def DB_VERSION_def
      cached_revives_def getAllRevives_def revives_store_def sample_revives_def)

subsection \<open>The dashboard\<close>

lemma read_after_init:
  "getApiKey db = Inr (db1, k) \<Longrightarrow> initDB db = Inr db1"
  "getApiMode db = Inr (db1, cm) \<Longrightarrow> initDB db = Inr db1"
  "getOldestTimestamp m db = Inr (db1, t) \<Longrightarrow> initDB db = Inr db1"
  "getAllRevives m db = Inr (db1, rs) \<Longrightarrow> initDB db = Inr db1"
  unfolding getApiKey_def getApiMode_def getOldestTimestamp_def getAllRevives_def
  by (auto split: sum.splits option.splits list.splits)

lemma observations_after_init:
  assumes "initDB db = Inr db1"
  shows "getAllRevives m db1 = getAllRevives m db"
    and "getOldestTimestamp m db1 = getOldestTimestamp m db"
    and "cached_revives m db1 = cached_revives m db"
    and "known_oldest m db1 = known_oldest m db"
  using assms initDB_idem [OF assms]
  by (simp_all add: getAllRevives_def getOldestTimestamp_def cached_revives_def known_oldest_def)

lemma opened_trans: "opened db db1 \<Longrightarrow> initDB db1 = Inr db2 \<Longrightarrow> opened db db2"
  unfolding opened_def using initDB_idem by fastforce

lemma fetch_failed_cases:
  "fetch_failed outcome \<Longrightarrow> outcome = FetchRejected \<or> (\<exists>body. outcome = Response False body)"
  by (auto simp: fetch_failed_def split: fetch_outcome.splits)

lemma fetchRevives_failure_shape:
  assumes "\<forall>req. fetch_failed (fetch req)"
  shows "opened db (snd (fetchRevives fetch backfill st db))
     \<and> hasMoreData (fst (fetchRevives fetch backfill st db)) = hasMoreData st
     \<and> revives (fst (fetchRevives fetch backfill st db)) = revives st
     \<and> userReviveId (fst (fetchRevives fetch backfill st db)) = userReviveId st
     \<and> factionId (fst (fetchRevives fetch backfill st db)) = factionId st
     \<and> toasts (fst (fetchRevives fetch backfill st db)) = toasts st
     \<and> \<not> isLoading (fst (fetchRevives fetch backfill st db))
     \<and> \<not> isFetching (fst (fetchRevives fetch backfill st db))
     \<and> \<not> isLoadingMore (fst (fetchRevives fetch backfill st db))
     \<and> (if \<exists>d. getApiKey db = Inr (d, None)
         then error (fst (fetchRevives fetch backfill st db)) = []
              \<and> loggedOut (fst (fetchRevives fetch backfill st db))
         else error (fst (fetchRevives fetch backfill st db)) =
                ''Failed to fetch revives. Please try again.''
              \<and> loggedOut (fst (fetchRevives fetch backfill st db)) = loggedOut st)"
proof -
  let ?st = "(if backfill then st\<lparr>isLoadingMore := True\<rparr> else st\<lparr>isFetching := True\<rparr>)\<lparr>error := []\<rparr>"
  show ?thesis
  proof (cases "getApiKey db")
    case (Inl e)
    then show ?thesis
      by (simp add: fetchRevives_def Let_def catch_block_def finally_block_def opened_def)
  next
    case (Inr p)
    obtain db1 k where p: "p = (db1, k)" by (cases p)
    have o1: "opened db db1"
      using Inr read_after_init(1) by (simp add: p opened_def)
    show ?thesis
    proof (cases k)
      case None
      then show ?thesis
        using Inr o1 by (simp add: fetchRevives_def Let_def p finally_block_def)
    next
      case (Some key)
      show ?thesis
      proof (cases "getApiMode db1")
        case (Inl e)
        then show ?thesis
          using Inr o1 Some by (simp add: fetchRevives_def Let_def p catch_block_def finally_block_def)
      next
        case mode: (Inr q)
        obtain db2 cm where q: "q = (db2, cm)" by (cases q)
        have o2: "opened db db2"
          using o1 mode read_after_init(2) q opened_trans by blast
        let ?old = "if backfill then getOldestTimestamp cm db2 else Inr (db2, None)"
        show ?thesis
        proof (cases ?old)
          case (Inl e)
          then show ?thesis
            using Inr o2 Some mode by (simp add: fetchRevives_def Let_def p q catch_block_def finally_block_def)
        next
          case old: (Inr u)
          obtain db3 t where u: "u = (db3, t)" by (cases u)
          have o3: "opened db db3"
            using o2 old read_after_init(3) [of cm db2 db3 t] opened_trans
            by (auto simp: u split: if_splits)
          let ?req = "\<lparr>req_mode = cm,
               req_to = (case t of None \<Rightarrow> None | Some t \<Rightarrow> if t = 0 then None else Some t),
               req_apiKey = key\<rparr>"
          from assms have "fetch_failed (fetch ?req)" by blast
          then have "fetch ?req = FetchRejected \<or> (\<exists>body. fetch ?req = Response False body)"
            by (rule fetch_failed_cases)
          then show ?thesis
            using Inr o3 Some mode old
            by (auto simp: fetchRevives_def Let_def p q u catch_block_def finally_block_def)
        qed
      qed
    qed
  qed
qed

lemma fetchRevives_failure_obs:
  assumes "\<forall>req. fetch_failed (fetch req)"
    and "fetchRevives fetch backfill st db = (st', db')"
  shows "(\<forall>m. getAllRevives m db' = getAllRevives m db)
    \<and> (\<forall>m. cached_revives m db' = cached_revives m db)
    \<and> (\<forall>m. getOldestTimestamp m db' = getOldestTimestamp m db)
    \<and> (\<forall>m. known_oldest m db' = known_oldest m db)
    \<and> (version db = DB_VERSION \<longrightarrow> db' = db)
    \<and> hasMoreData st' = hasMoreData st
    \<and> revives st' = revives st
    \<and> userReviveId st' = userReviveId st
    \<and> \<not> isLoading st' \<and> \<not> isFetching st' \<and> \<not> isLoadingMore st'
    \<and> ((\<exists>d key. getApiKey db = Inr (d, Some key)) \<longrightarrow>
          error st' = ''Failed to fetch revives. Please try again.'')"
proof -
  note sh = fetchRevives_failure_shape [OF assms(1), of db backfill st, unfolded assms(2) fst_conv snd_conv]
  then have o: "opened db db'" by simp
  have obs: "cached_revives m db' = cached_revives m db" "known_oldest m db' = known_oldest m db"
    "getAllRevives m db' = getAllRevives m db"
    "getOldestTimestamp m db' = getOldestTimestamp m db" for m
    using o observations_after_init [of db db' m] by (auto simp: opened_def)
  have v: "version db = DB_VERSION \<longrightarrow> db' = db"
    using o by (auto simp: opened_def initDB_def)
  have e: "(\<exists>d key. getApiKey db = Inr (d, Some key)) \<longrightarrow>
          error st' = ''Failed to fetch revives. Please try again.''"
    using sh by (auto split: if_splits)
  from sh obs v e show ?thesis
    by simp
qed

text \<open>
  Claim C8 (amended). When the fetch fails (the request is rejected, or the response is not
  ok), \<open>fetchRevives\<close>, which is the initial load and, as \<open>handleLoadMore\<close>, the backfill,
  reports the failure in the error state and changes neither the cached records nor the
  cursor: the records and the oldest timestamp a later read gets, the flag \<open>hasMoreData\<close>
  and the displayed records are what they were, and the progress flags are off again, so
  the call can be repeated. A refresh, \<open>handleRefresh\<close>, that fails leaves the cached
  records, the oldest timestamp and the displayed records as they were and reports the same
  error, but it has set \<open>hasMoreData\<close> before it fetches: after a failed refresh the flag is
  true, whatever it was before.
\<close>

theorem fetchRevives_failure_keeps_state:
  assumes "\<forall>req. fetch_failed (fetch req)"
    and "fetchRevives fetch backfill st db = (st', db')"
    and "handleLoadMore fetch st db = (st_more, db_more)"
    and "handleRefresh fetch st db = (st_fresh, db_fresh)"
  shows "(\<forall>m. getAllRevives m db' = getAllRevives m db)
    \<and> (\<forall>m. cached_revives m db' = cached_revives m db)
    \<and> (\<forall>m. getOldestTimestamp m db' = getOldestTimestamp m db)
    \<and> (\<forall>m. known_oldest m db' = known_oldest m db)
    \<and> (version db = DB_VERSION \<longrightarrow> db' = db)
    \<and> hasMoreData st' = hasMoreData st
    \<and> revives st' = revives st
    \<and> userReviveId st' = userReviveId st
    \<and> \<not> isLoading st' \<and> \<not> isFetching st' \<and> \<not> isLoadingMore st'
    \<and> ((\<exists>d key. getApiKey db = Inr (d, Some key)) \<longrightarrow>
          error st' = ''Failed to fetch revives. Please try again.'')
    \<and> (st_more, db_more) = fetchRevives fetch True st db
    \<and> (\<forall>m. getAllRevives m db_more = getAllRevives m db)
    \<and> (\<forall>m. cached_revives m db_more = cached_revives m db)
    \<and> (\<forall>m. getOldestTimestamp m db_more = getOldestTimestamp m db)
    \<and> (\<forall>m. known_oldest m db_more = known_oldest m db)
    \<and> hasMoreData st_more = hasMoreData st
    \<and> revives st_more = revives st
    \<and> ((\<exists>d key. getApiKey db = Inr (d, Some key)) \<longrightarrow>
          error st_more = ''Failed to fetch revives. Please try again.'')
    \<and> (st_fresh, db_fresh) = fetchRevives fetch False (st\<lparr>hasMoreData := True\<rparr>) db
    \<and> (\<forall>m. getAllRevives m db_fresh = getAllRevives m db)
    \<and> (\<forall>m. cached_revives m db_fresh = cached_revives m db)
    \<and> (\<forall>m. getOldestTimestamp m db_fresh = getOldestTimestamp m db)
    \<and> (\<forall>m. known_oldest m db_fresh = known_oldest m db)
    \<and> (version db = DB_VERSION \<longrightarrow> db_fresh = db)
    \<and> hasMoreData st_fresh
    \<and> revives st_fresh = revives st
    \<and> userReviveId st_fresh = userReviveId st
    \<and> \<not> isLoading st_fresh \<and> \<not> isFetching st_fresh \<and> \<not> isLoadingMore st_fresh
    \<and> ((\<exists>d key. getApiKey db = Inr (d, Some key)) \<longrightarrow>
          error st_fresh = ''Failed to fetch revives. Please try again.'')"
proof -
  have m: "fetchRevives fetch True st db = (st_more, db_more)"
    using assms(3) by (simp add: handleLoadMore_def)
  have r: "fetchRevives fetch False (st\<lparr>hasMoreData := True\<rparr>) db = (st_fresh, db_fresh)"
    using assms(4) by (simp add: handleRefresh_def)
  note a = fetchRevives_failure_obs [OF assms(1) assms(2)]
  note b = fetchRevives_failure_obs [OF assms(1) m]
  note c = fetchRevives_failure_obs [OF assms(1) r]
  have C: "(\<forall>m. getAllRevives m db_fresh = getAllRevives m db)
    \<and> (\<forall>m. cached_revives m db_fresh = cached_revives m db)
    \<and> (\<forall>m. getOldestTimestamp m db_fresh = getOldestTimestamp m db)
    \<and> (\<forall>m. known_oldest m db_fresh = known_oldest m db)
    \<and> (version db = DB_VERSION \<longrightarrow> db_fresh = db)
    \<and> hasMoreData st_fresh
    \<and> revives st_fresh = revives st
    \<and> userReviveId st_fresh = userReviveId st
    \<and> \<not> isLoading st_fresh \<and> \<not> isFetching st_fresh \<and> \<not> isLoadingMore st_fresh
    \<and> ((\<exists>d key. getApiKey db = Inr (d, Some key)) \<longrightarrow>
          error st_fresh = ''Failed to fetch revives. Please try again.'')"
    using c by simp
  from a b C m [symmetric] r [symmetric] show ?thesis
    by simp
qed

theorem fetchRevives_failure_keeps_state_witness:
  "hasMoreData (fst (fetchRevives (\<lambda>req. Response False BadJson) True sample_state keyed_db))
     = hasMoreData sample_state
   \<and> revives (fst (fetchRevives (\<lambda>req. Response False BadJson) True sample_state keyed_db))
     = revives sample_state
   \<and> snd (fetchRevives (\<lambda>req. Response False BadJson) True sample_state keyed_db) = keyed_db
   \<and> cached_revives UserMode (snd (fetchRevives (\<lambda>req. Response False BadJson) True sample_state keyed_db))
     = cached_revives UserMode keyed_db
   \<and> known_oldest UserMode (snd (fetchRevives (\<lambda>req. Response False BadJson) True sample_state keyed_db))
     = Some 100
   \<and> error (fst (fetchRevives (\<lambda>req. Response False BadJson) True sample_state keyed_db))
     = ''Failed to fetch revives. Please try again.''
   \<and> hasMoreData (fst (handleLoadMore (\<lambda>req. Response False BadJson) sample_state keyed_db))
     = hasMoreData sample_state
   \<and> hasMoreData (fst (handleRefresh (\<lambda>req. Response False BadJson) sample_state keyed_db))
   \<and> revives (fst (handleRefresh (\<lambda>req. Response False BadJson) sample_state keyed_db))
     = revives sample_state
   \<and> snd (handleRefresh (\<lambda>req. Response False BadJson) sample_state keyed_db) = keyed_db
   \<and> known_oldest UserMode (snd (handleRefresh (\<lambda>req. Response False BadJson) sample_state keyed_db))
     = Some 100
   \<and> error (fst (handleRefresh (\<lambda>req. Response False BadJson) sample_state keyed_db))
     = ''Failed to fetch revives. Please try again.''"
proof -
  let ?r = "fetchRevives (\<lambda>req. Response False BadJson) True sample_state keyed_db"
  let ?m = "handleLoadMore (\<lambda>req. Response False BadJson) sample_state keyed_db"
  let ?f = "handleRefresh (\<lambda>req. Response False BadJson) sample_state keyed_db"
  have f: "\<forall>req. fetch_failed ((\<lambda>req. Response False BadJson) req)"
    by (simp add: fetch_failed_def)
  have k: "getApiKey keyed_db = Inr (keyed_db, Some ''key'')"
    by code_simp
  have v: "version keyed_db = DB_VERSION"
    by code_simp
  have t: "known_oldest UserMode keyed_db = Some 100"
    by code_simp
  have "?r = (fst ?r, snd ?r)" "?m = (fst ?m, snd ?m)" "?f = (fst ?f, snd ?f)"
    by simp_all
  from fetchRevives_failure_keeps_state [OF f this] k v t show ?thesis
    by auto
qed

text \<open>
  The flag after a failed refresh. A backfill that finds no older records clears
  \<open>hasMoreData\<close>; a refresh whose request is then rejected reports the error and leaves the
  flag set.
\<close>

theorem handleRefresh_failure_sets_hasMoreData:
  "hasMoreData (fst (handleLoadMore (\<lambda>req. Response True (Json (Some [])))
       initial_dashboard_state keyed_db)) = False
   \<and> fetch_failed FetchRejected
   \<and> hasMoreData (fst (handleRefresh (\<lambda>req. FetchRejected)
       (fst (handleLoadMore (\<lambda>req. Response True (Json (Some []))) initial_dashboard_state keyed_db))
       (snd (handleLoadMore (\<lambda>req. Response True (Json (Some []))) initial_dashboard_state keyed_db))))
     = True
   \<and> error (fst (handleRefresh (\<lambda>req. FetchRejected)
       (fst (handleLoadMore (\<lambda>req. Response True (Json (Some []))) initial_dashboard_state keyed_db))
       (snd (handleLoadMore (\<lambda>req. Response True (Json (Some []))) initial_dashboard_state keyed_db))))
     = ''Failed to fetch revives. Please try again.''"
  by code_simp

subsection \<open>The table\<close>

lemma set_insort_cmp [simp]: "set (insort_cmp cmp x ys) = insert x (set ys)"
  by (induction ys) auto

lemma set_sort_cmp [simp]: "set (sort_cmp cmp xs) = set xs"
  by (induction xs) (simp_all add: sort_cmp_def)

lemma length_insort_cmp [simp]: "length (insort_cmp cmp x ys) = Suc (length ys)"
  by (induction ys) auto

lemma length_sort_cmp [simp]: "length (sort_cmp cmp xs) = length xs"
  by (induction xs) (simp_all add: sort_cmp_def)

lemma set_if_filter: "set (if c then filter P xs else xs) = {x \<in> set xs. c \<longrightarrow> P x}"
  by auto

lemma set_case_filter:
  "set (case v of None \<Rightarrow> xs | Some a \<Rightarrow> filter (P a) xs) = {x \<in> set xs. \<forall>a. v = Some a \<longrightarrow> P a x}"
  by (cases v) auto

lemma in_filteredAndSortedRevives:
  "r \<in> set (filteredAndSortedRevives st revs) \<longleftrightarrow>
     r \<in> set revs
     \<and> (\<forall>c. categoryFilter st = Some c \<longrightarrow> Category r = c)
     \<and> (\<forall>isSuccess. outcomeFilter st = Some isSuccess \<longrightarrow> Success r = isSuccess)
     \<and> (trim (playerSearch st) \<noteq> [] \<longrightarrow> matches_player_search (toLowerCase (playerSearch st)) r)
     \<and> (trim (factionSearch st) \<noteq> [] \<longrightarrow> matches_faction_search (toLowerCase (factionSearch st)) r)
     \<and> not_excluded_player (excludedPlayers st) r
     \<and> not_excluded_faction (excludedFactions st) r
     \<and> (\<forall>t. dateRange_from st = Some t \<longrightarrow> timestamp r \<ge> t)
     \<and> (\<forall>t. dateRange_to st = Some t \<longrightarrow> timestamp r \<le> t + 86399)"
proof -
  have p: "(0 < length (excludedPlayers st) \<longrightarrow> not_excluded_player (excludedPlayers st) r)
      \<longleftrightarrow> not_excluded_player (excludedPlayers st) r"
    by (cases "excludedPlayers st") (simp_all add: not_excluded_player_def)
  have f: "(0 < length (excludedFactions st) \<longrightarrow> not_excluded_faction (excludedFactions st) r)
      \<longleftrightarrow> not_excluded_faction (excludedFactions st) r"
    by (cases "excludedFactions st") (simp_all add: not_excluded_faction_def split: option.split)
  have "r \<in> set (filteredAndSortedRevives st revs) \<longleftrightarrow>
     ((((((((r \<in> set revs
     \<and> (\<forall>c. categoryFilter st = Some c \<longrightarrow> Category r = c))
     \<and> (\<forall>isSuccess. outcomeFilter st = Some isSuccess \<longrightarrow> Success r = isSuccess))
     \<and> (trim (playerSearch st) \<noteq> [] \<longrightarrow> matches_player_search (toLowerCase (playerSearch st)) r))
     \<and> (trim (factionSearch st) \<noteq> [] \<longrightarrow> matches_faction_search (toLowerCase (factionSearch st)) r))
     \<and> (0 < length (excludedPlayers st) \<longrightarrow> not_excluded_player (excludedPlayers st) r))
     \<and> (0 < length (excludedFactions st) \<longrightarrow> not_excluded_faction (excludedFactions st) r))
     \<and> (\<forall>t. dateRange_from st = Some t \<longrightarrow> timestamp r \<ge> t))
     \<and> (\<forall>t. dateRange_to st = Some t \<longrightarrow> timestamp r \<le> t + 86399))"
    unfolding filteredAndSortedRevives_def Let_def set_sort_cmp set_case_filter set_if_filter
      mem_Collect_eq ..
  then show ?thesis
    unfolding p f by blast
qed

lemma set_fold_Set_add: "set (fold Set_add xs acc) = set acc \<union> set xs"
  by (induction xs arbitrary: acc) (auto simp: Set_add_def)

lemma set_new_Set [simp]: "set (new_Set xs) = set xs"
  by (simp add: new_Set_def set_fold_Set_add)





lemma toggleExcludeFaction_state:
  "excludedFactions (fst (toggleExcludeFaction faction st db)) =
     (if faction \<in> set (excludedFactions st) then Set_delete faction (excludedFactions st)
      else Set_add faction (excludedFactions st))"
  "excludedPlayers (fst (toggleExcludeFaction faction st db)) = excludedPlayers st"
  by (simp_all add: toggleExcludeFaction_def Let_def)


lemma set_Set_add [simp]: "set (Set_add x xs) = insert x (set xs)"
  by (auto simp: Set_add_def)

lemma set_Set_delete [simp]: "set (Set_delete x xs) = set xs - {x}"
  by (auto simp: Set_delete_def)










lemma trim_Nil [simp]: "trim [] = []"
  by (simp add: trim_def)

lemma trim_eq_Nil_iff: "trim s = [] \<longleftrightarrow> (\<forall>c \<in> set s. is_whitespace c)"
proof
  assume "trim s = []"
  then have "dropWhile is_whitespace (rev (dropWhile is_whitespace s)) = []"
    by (simp add: trim_def)
  then have a: "\<forall>c \<in> set (dropWhile is_whitespace s). is_whitespace c"
    by (simp add: dropWhile_eq_Nil_conv)
  have "dropWhile is_whitespace s = []"
  proof (rule ccontr)
    assume n: "dropWhile is_whitespace s \<noteq> []"
    then have "\<not> is_whitespace (hd (dropWhile is_whitespace s))"
      by (rule hd_dropWhile)
    moreover have "hd (dropWhile is_whitespace s) \<in> set (dropWhile is_whitespace s)"
      using n by simp
    ultimately show False
      using a by blast
  qed
  then show "\<forall>c \<in> set s. is_whitespace c"
    by (simp add: dropWhile_eq_Nil_conv)
next
  assume "\<forall>c \<in> set s. is_whitespace c"
  then have "dropWhile is_whitespace s = []"
    by (simp add: dropWhile_eq_Nil_conv)
  then show "trim s = []"
    unfolding trim_def by (simp only: rev.simps dropWhile.simps)
qed

text \<open>
  Claim C10, as amended. A record whose target has no faction passes the faction-exclusion
  filter whatever the excluded-faction set holds, so that set does not change whether the
  record is in the view; the faction search never matches it, so a faction search string
  that is not empty once trimmed removes it from the view. A search string that is empty
  once trimmed, that is, one of white space only (tab, line feed, vertical tab, form feed,
  carriage return, space, no-break space), applies no faction filter: the view is the one
  of the empty search string.
\<close>

theorem no_faction_record_filters:
  "(target_faction (target r) = None \<longrightarrow>
     not_excluded_faction excluded r
     \<and> (r \<in> set (filteredAndSortedRevives (st\<lparr>excludedFactions := excluded\<rparr>) revs)
        \<longleftrightarrow> r \<in> set (filteredAndSortedRevives (st\<lparr>excludedFactions := []\<rparr>) revs))
     \<and> \<not> matches_faction_search searchLower r
     \<and> (trim (factionSearch st) \<noteq> [] \<longrightarrow> r \<notin> set (filteredAndSortedRevives st revs)))
   \<and> (trim (factionSearch st) = [] \<longrightarrow>
        filteredAndSortedRevives st revs = filteredAndSortedRevives (st\<lparr>factionSearch := []\<rparr>) revs)
   \<and> (trim (factionSearch st) = [] \<longleftrightarrow> (\<forall>c \<in> set (factionSearch st). is_whitespace c))
   \<and> (is_whitespace c \<longleftrightarrow> (of_char c :: nat) \<in> {9, 10, 11, 12, 13, 32, 160})"
proof (intro conjI)
  show "target_faction (target r) = None \<longrightarrow>
     not_excluded_faction excluded r
     \<and> (r \<in> set (filteredAndSortedRevives (st\<lparr>excludedFactions := excluded\<rparr>) revs)
        \<longleftrightarrow> r \<in> set (filteredAndSortedRevives (st\<lparr>excludedFactions := []\<rparr>) revs))
     \<and> \<not> matches_faction_search searchLower r
     \<and> (trim (factionSearch st) \<noteq> [] \<longrightarrow> r \<notin> set (filteredAndSortedRevives st revs))"
    by (simp add: in_filteredAndSortedRevives not_excluded_faction_def matches_faction_search_def)
  show "trim (factionSearch st) = [] \<longrightarrow>
        filteredAndSortedRevives st revs = filteredAndSortedRevives (st\<lparr>factionSearch := []\<rparr>) revs"
  proof
    assume t: "trim (factionSearch st) = []"
    let ?st = "st\<lparr>factionSearch := []\<rparr>"
    have a: "(if trim (factionSearch st) \<noteq> []
              then filter (matches_faction_search (toLowerCase (factionSearch st))) xs else xs) = xs"
      for xs
      using t by simp
    have b: "(if trim (factionSearch ?st) \<noteq> []
              then filter (matches_faction_search (toLowerCase (factionSearch ?st))) xs else xs) = xs"
      for xs
      by simp
    have f: "categoryFilter ?st = categoryFilter st" "outcomeFilter ?st = outcomeFilter st"
      "playerSearch ?st = playerSearch st" "excludedPlayers ?st = excludedPlayers st"
      "excludedFactions ?st = excludedFactions st" "dateRange_from ?st = dateRange_from st"
      "dateRange_to ?st = dateRange_to st" "sortField ?st = sortField st"
      "sortDirection ?st = sortDirection st"
      by simp_all
    show "filteredAndSortedRevives st revs = filteredAndSortedRevives ?st revs"
      unfolding filteredAndSortedRevives_def Let_def a b f ..
  qed
  show "trim (factionSearch st) = [] \<longleftrightarrow> (\<forall>c \<in> set (factionSearch st). is_whitespace c)"
    by (rule trim_eq_Nil_iff)
  show "is_whitespace c \<longleftrightarrow> (of_char c :: nat) \<in> {9, 10, 11, 12, 13, 32, 160}"
    by (rule is_whitespace_def)
qed

theorem no_faction_record_filters_witness:
  "target_faction (target (sample_enriched None)) = None
   \<and> trim (factionSearch (initial_table_state\<lparr>factionSearch := ''red''\<rparr>)) \<noteq> []
   \<and> sample_enriched None \<notin>
       set (filteredAndSortedRevives (initial_table_state\<lparr>factionSearch := ''red''\<rparr>) [sample_enriched None])
   \<and> not_excluded_faction [''Reds''] (sample_enriched None)
   \<and> trim (factionSearch (initial_table_state\<lparr>factionSearch := [CHR 0xA0, CHR 0x09]\<rparr>)) = []
   \<and> filteredAndSortedRevives (initial_table_state\<lparr>factionSearch := [CHR 0xA0, CHR 0x09]\<rparr>)
        [sample_enriched None]
      = filteredAndSortedRevives
          (initial_table_state\<lparr>factionSearch := [CHR 0xA0, CHR 0x09], factionSearch := []\<rparr>)
          [sample_enriched None]"
proof -
  have a: "target_faction (target (sample_enriched None)) = None"
    by code_simp
  have b: "trim (factionSearch (initial_table_state\<lparr>factionSearch := ''red''\<rparr>)) \<noteq> []"
    by code_simp
  have c: "\<forall>c \<in> set (factionSearch (initial_table_state\<lparr>factionSearch := [CHR 0xA0, CHR 0x09]\<rparr>)).
      (of_char c :: nat) \<in> {9, 10, 11, 12, 13, 32, 160}"
    by simp
  note t = no_faction_record_filters [of "sample_enriched None" "[''Reds'']"
      "initial_table_state\<lparr>factionSearch := ''red''\<rparr>" "[sample_enriched None]" "[]"]
  note u = no_faction_record_filters [of "sample_enriched None" "[''Reds'']"
      "initial_table_state\<lparr>factionSearch := [CHR 0xA0, CHR 0x09]\<rparr>" "[sample_enriched None]" "[]"]
  have w: "\<forall>c \<in> set (factionSearch (initial_table_state\<lparr>factionSearch := [CHR 0xA0, CHR 0x09]\<rparr>)).
      is_whitespace c"
    using c u [THEN conjunct2, THEN conjunct2, THEN conjunct2] by blast
  have d: "trim (factionSearch (initial_table_state\<lparr>factionSearch := [CHR 0xA0, CHR 0x09]\<rparr>)) = []"
    using u [THEN conjunct2, THEN conjunct2, THEN conjunct1] w by blast
  from t a b d u [THEN conjunct2, THEN conjunct1]
  show ?thesis by blast
qed

theorem no_faction_record_counterexample:
  "factionSearch (initial_table_state\<lparr>factionSearch := '' ''\<rparr>) \<noteq> []
   \<and> target_faction (target (sample_enriched None)) = None
   \<and> sample_enriched None
       \<in> set (filteredAndSortedRevives (initial_table_state\<lparr>factionSearch := '' ''\<rparr>) [sample_enriched None])"
  by code_simp

lemma totalPages_bounds:
  assumes "0 < pageSize st"
  shows "int (length (filteredAndSortedRevives st revs)) \<le> totalPages st revs * int (pageSize st)"
    and "totalPages st revs * int (pageSize st)
           < int (length (filteredAndSortedRevives st revs)) + int (pageSize st)"
proof -
  let ?n = "length (filteredAndSortedRevives st revs)"
  let ?p = "pageSize st"
  let ?x = "(of_nat ?n :: rat) / of_nat ?p"
  have p: "(0 :: rat) < of_nat ?p"
    using assms by simp
  have "?x \<le> of_int \<lceil>?x\<rceil>"
    by (rule le_of_int_ceiling)
  then have "(of_nat ?n :: rat) \<le> of_int \<lceil>?x\<rceil> * of_nat ?p"
    unfolding pos_divide_le_eq [OF p] .
  then have "(of_int (int ?n) :: rat) \<le> of_int (\<lceil>?x\<rceil> * int ?p)"
    by simp
  then show "int ?n \<le> totalPages st revs * int ?p"
    unfolding totalPages_def of_int_le_iff .
  have "of_int \<lceil>?x\<rceil> < ?x + 1"
    using ceiling_correct [of ?x] by linarith
  then have "of_int \<lceil>?x\<rceil> * of_nat ?p < (?x + 1) * of_nat ?p"
    using p by simp
  also have "\<dots> = of_nat ?n + of_nat ?p"
    using p by (simp add: field_simps)
  finally have "(of_int (\<lceil>?x\<rceil> * int ?p) :: rat) < of_int (int ?n + int ?p)"
    by simp
  then show "totalPages st revs * int ?p < int ?n + int ?p"
    unfolding totalPages_def of_int_less_iff .
qed

lemma totalPages_empty:
  "filteredAndSortedRevives st revs = [] \<Longrightarrow> totalPages st revs = 0"
  by (simp add: totalPages_def)

lemma totalPages_nonneg: "0 \<le> totalPages st revs"
proof -
  have "(0 :: rat) \<le> of_nat (length (filteredAndSortedRevives st revs)) / of_nat (pageSize st)"
    by simp
  then have "(- 1 :: rat) < of_nat (length (filteredAndSortedRevives st revs)) / of_nat (pageSize st)"
    by linarith
  then show ?thesis
    unfolding totalPages_def zero_le_ceiling .
qed

lemma handlePageJump_cases:
  "handlePageJump to_number revs loadingMore st =
     (case to_number (pageJumpInput st) of
        None \<Rightarrow> (st, False)
      | Some pageNum \<Rightarrow>
          if 1 \<le> pageNum \<and> pageNum \<le> of_int (totalPages st revs)
          then (st\<lparr>currentPage := pageNum, pageJumpInput := []\<rparr>,
                pageNum = of_int (totalPages st revs) \<and> \<not> loadingMore)
          else (st, False))"
  by (simp add: handlePageJump_def handlePageChange_def split: option.split)

text \<open>
  Claim C2, as amended. For every filtered count \<open>N\<close> and every allowed page size \<open>P\<close> the
  view computes \<open>totalPages = ceil (N / P)\<close>, the least number of pages of size \<open>P\<close> that
  hold \<open>N\<close> records, which is 0 when \<open>N = 0\<close>; the page indicator shows
  \<open>max 1 totalPages\<close>. A page request is not clamped: \<open>handlePageChange\<close> makes the page
  it is given the current page, and a page jump to a number outside \<open>[1, totalPages]\<close> is
  ignored and leaves the state as it is, so a page jump never sets a page above
  \<open>totalPages\<close>. None of them fails.
\<close>

theorem totalPages_and_page_requests:
  "(pageSize st \<in> set allowed_page_sizes \<longrightarrow>
      int (length (filteredAndSortedRevives st revs)) \<le> totalPages st revs * int (pageSize st)
      \<and> totalPages st revs * int (pageSize st)
           < int (length (filteredAndSortedRevives st revs)) + int (pageSize st))
   \<and> (filteredAndSortedRevives st revs = [] \<longrightarrow> totalPages st revs = 0)
   \<and> shown_totalPages st revs = max 1 (totalPages st revs)
   \<and> currentPage (fst (handlePageChange revs loadingMore newPage st)) = newPage
   \<and> (case to_number (pageJumpInput st) of
         None \<Rightarrow> handlePageJump to_number revs loadingMore st = (st, False)
       | Some pageNum \<Rightarrow>
           if 1 \<le> pageNum \<and> pageNum \<le> of_int (totalPages st revs)
           then currentPage (fst (handlePageJump to_number revs loadingMore st)) = pageNum
           else handlePageJump to_number revs loadingMore st = (st, False))
   \<and> (currentPage (fst (handlePageJump to_number revs loadingMore st)) \<noteq> currentPage st \<longrightarrow>
         1 \<le> currentPage (fst (handlePageJump to_number revs loadingMore st))
         \<and> currentPage (fst (handlePageJump to_number revs loadingMore st))
              \<le> of_int (totalPages st revs))"
proof (intro conjI impI)
  assume "pageSize st \<in> set allowed_page_sizes"
  then have p: "0 < pageSize st"
    by (auto simp: allowed_page_sizes_def)
  from p show "int (length (filteredAndSortedRevives st revs)) \<le> totalPages st revs * int (pageSize st)"
    by (rule totalPages_bounds(1))
  from p show "totalPages st revs * int (pageSize st)
           < int (length (filteredAndSortedRevives st revs)) + int (pageSize st)"
    by (rule totalPages_bounds(2))
next
  assume "filteredAndSortedRevives st revs = []"
  then show "totalPages st revs = 0"
    by (rule totalPages_empty)
next
  show "shown_totalPages st revs = max 1 (totalPages st revs)"
    using totalPages_nonneg [of st revs] by (simp add: shown_totalPages_def)
  show "currentPage (fst (handlePageChange revs loadingMore newPage st)) = newPage"
    by (simp add: handlePageChange_def)
  show "case to_number (pageJumpInput st) of
         None \<Rightarrow> handlePageJump to_number revs loadingMore st = (st, False)
       | Some pageNum \<Rightarrow>
           if 1 \<le> pageNum \<and> pageNum \<le> of_int (totalPages st revs)
           then currentPage (fst (handlePageJump to_number revs loadingMore st)) = pageNum
           else handlePageJump to_number revs loadingMore st = (st, False)"
    by (simp add: handlePageJump_cases split: option.split)
next
  assume a: "currentPage (fst (handlePageJump to_number revs loadingMore st)) \<noteq> currentPage st"
  then show "1 \<le> currentPage (fst (handlePageJump to_number revs loadingMore st))"
    by (auto simp: handlePageJump_cases split: option.splits if_splits)
  from a show "currentPage (fst (handlePageJump to_number revs loadingMore st))
              \<le> of_int (totalPages st revs)"
    by (auto simp: handlePageJump_cases split: option.splits if_splits)
qed

theorem totalPages_and_page_requests_witness:
  "pageSize (initial_table_state\<lparr>pageSize := 5, pageJumpInput := ''3''\<rparr>) \<in> set allowed_page_sizes
   \<and> length (filteredAndSortedRevives (initial_table_state\<lparr>pageSize := 5, pageJumpInput := ''3''\<rparr>)
        (map enrich_basic (sample_revives @ sample_revives @ sample_revives))) = 12
   \<and> totalPages (initial_table_state\<lparr>pageSize := 5, pageJumpInput := ''3''\<rparr>)
        (map enrich_basic (sample_revives @ sample_revives @ sample_revives)) = 3
   \<and> currentPage (fst (handlePageJump (\<lambda>s. Some 3)
        (map enrich_basic (sample_revives @ sample_revives @ sample_revives)) False
        (initial_table_state\<lparr>pageSize := 5, pageJumpInput := ''3''\<rparr>))) = 3
   \<and> filteredAndSortedRevives (initial_table_state\<lparr>pageSize := 5, pageJumpInput := ''3''\<rparr>) [] = []
   \<and> totalPages (initial_table_state\<lparr>pageSize := 5, pageJumpInput := ''3''\<rparr>) [] = 0"
proof -
  let ?st = "initial_table_state\<lparr>pageSize := 5, pageJumpInput := ''3''\<rparr>"
  let ?revs = "map enrich_basic (sample_revives @ sample_revives @ sample_revives)"
  have p: "pageSize ?st \<in> set allowed_page_sizes"
    by code_simp
  have ps: "pageSize ?st = 5"
    by code_simp
  have n: "length (filteredAndSortedRevives ?st ?revs) = 12"
    by code_simp
  have e: "filteredAndSortedRevives ?st [] = []"
    by code_simp
  note t = totalPages_and_page_requests [where st = ?st and revs = ?revs and loadingMore = False
      and to_number = "\<lambda>s. Some 3" and newPage = 2]
  from t p have "int (length (filteredAndSortedRevives ?st ?revs)) \<le> totalPages ?st ?revs * int (pageSize ?st)
      \<and> totalPages ?st ?revs * int (pageSize ?st) < int (length (filteredAndSortedRevives ?st ?revs)) + int (pageSize ?st)"
    by blast
  then have tp: "totalPages ?st ?revs = 3"
    unfolding n ps by simp
  from t have "case (\<lambda>s. Some 3) (pageJumpInput ?st) of
         None \<Rightarrow> handlePageJump (\<lambda>s. Some 3) ?revs False ?st = (?st, False)
       | Some pageNum \<Rightarrow>
           if 1 \<le> pageNum \<and> pageNum \<le> of_int (totalPages ?st ?revs)
           then currentPage (fst (handlePageJump (\<lambda>s. Some 3) ?revs False ?st)) = pageNum
           else handlePageJump (\<lambda>s. Some 3) ?revs False ?st = (?st, False)"
    by blast
  then have j: "currentPage (fst (handlePageJump (\<lambda>s. Some 3) ?revs False ?st)) = 3"
    unfolding tp by simp
  from totalPages_and_page_requests [where st = ?st and revs = "[]"] e
  have z: "totalPages ?st [] = 0"
    by blast
  from p n tp j e z show ?thesis
    by blast
qed

theorem totalPages_and_page_requests_counterexample:
  "totalPages initial_table_state [] = 0
   \<and> max 1 \<lceil>(0 :: rat) / of_nat (pageSize initial_table_state)\<rceil> = 1
   \<and> totalPages initial_table_state (map enrich_basic sample_revives) = 1
   \<and> currentPage (fst (handlePageChange (map enrich_basic sample_revives) False 7
        initial_table_state)) = 7
   \<and> handlePageJump (\<lambda>s. Some 7) (map enrich_basic sample_revives) False
        (initial_table_state\<lparr>pageJumpInput := ''7''\<rparr>)
       = (initial_table_state\<lparr>pageJumpInput := ''7''\<rparr>, False)"
  by code_simp

end
